theory Spec2Isabelle
  imports Complex_Main "HOL-Library.Multiset" "HOL-Library.Sublist" "HOL-Library.Log_Nat"
begin

section \<open>Python values and the built-in \<open>float\<close>\<close>

text \<open>
  \<^verbatim>\<open>pack_cluster(farmers, capacity)\<close> of \<^verbatim>\<open>ml_service/bin_packing.py\<close> receives a list
  of dicts and reads two keys of each, \<^verbatim>\<open>"farmer_id"\<close> and \<^verbatim>\<open>"load_kg"\<close>. A value stored
  in such a dict is a number, a string or \<^verbatim>\<open>None\<close>. Numbers are idealised: a Python
  float is modelled as an exact real, so rounding, infinities and NaN are outside the model.
  The capacity bound is the one property that rounding decides; for it the function is
  given a second time further down, with every coercion and subtraction rounded to binary64.
\<close>

datatype pyval = PyFloat real | PyInt int | PyStr string | PyNone

datatype error = ValueError | TypeError | KeyError | OverflowError

type_synonym farmer = "string \<rightharpoonup> pyval"

text \<open>
  \<^verbatim>\<open>float(s)\<close> on a string: surrounding whitespace is stripped, then an optional sign, a
  decimal mantissa (digits with an optional point) and an optional exponent are read;
  anything else raises \<^verbatim>\<open>ValueError\<close>. (The spellings of infinity and NaN, and
  underscores between digits, are not numbers of this model.)
\<close>

definition is_space :: "char \<Rightarrow> bool" where
  "is_space c = (c \<in> set [CHR '' '', CHR 0x09, CHR 0x0A, CHR 0x0B, CHR 0x0C, CHR 0x0D])"

definition is_digit :: "char \<Rightarrow> bool" where
  "is_digit c = (c \<in> set ''0123456789'')"

definition strip :: "string \<Rightarrow> string" where
  "strip s = rev (dropWhile is_space (rev (dropWhile is_space s)))"

fun digits_val :: "nat \<Rightarrow> string \<Rightarrow> nat" where
  "digits_val acc [] = acc"
| "digits_val acc (c # cs) = digits_val (10 * acc + (of_char c - 48)) cs"

fun split_sign :: "string \<Rightarrow> bool \<times> string" where
  "split_sign (c # cs) =
     (if c = CHR ''-'' then (True, cs) else if c = CHR ''+'' then (False, cs)
      else (False, c # cs))"
| "split_sign [] = (False, [])"

definition parse_exponent :: "string \<Rightarrow> int option" where
  "parse_exponent s =
     (case s of
        [] \<Rightarrow> Some 0
      | c # cs \<Rightarrow>
          if c = CHR ''e'' \<or> c = CHR ''E'' then
            (case split_sign cs of
               (neg, ds) \<Rightarrow>
                 if ds \<noteq> [] \<and> list_all is_digit ds
                 then Some (if neg then - int (digits_val 0 ds) else int (digits_val 0 ds))
                 else None)
          else None)"

definition scale10 :: "nat \<Rightarrow> int \<Rightarrow> real" where
  "scale10 m e = (if 0 \<le> e then real m * 10 ^ nat e else real m / 10 ^ nat (- e))"

definition float_of_str :: "string \<Rightarrow> real option" where
  "float_of_str s =
     (case split_sign (strip s) of
        (neg, u) \<Rightarrow>
          let ip = takeWhile is_digit u;
              r1 = dropWhile is_digit u;
              fp = (case r1 of [] \<Rightarrow> [] | c # cs \<Rightarrow>
                      if c = CHR ''.'' then takeWhile is_digit cs else []);
              r2 = (case r1 of [] \<Rightarrow> [] | c # cs \<Rightarrow>
                      if c = CHR ''.'' then dropWhile is_digit cs else r1)
          in if ip = [] \<and> fp = [] then None
             else (case parse_exponent r2 of
                     None \<Rightarrow> None
                   | Some e \<Rightarrow>
                       let x = scale10 (digits_val 0 (ip @ fp)) (e - int (length fp))
                       in Some (if neg then - x else x)))"

fun py_float :: "pyval \<Rightarrow> error + real" where
  "py_float (PyFloat x) = Inr x"
| "py_float (PyInt i) = Inr (of_int i)"
| "py_float (PyStr s) = (case float_of_str s of None \<Rightarrow> Inl ValueError | Some x \<Rightarrow> Inr x)"
| "py_float PyNone = Inl TypeError"

text \<open>\<^verbatim>\<open>d.get(k, default)\<close> and \<^verbatim>\<open>d[k]\<close>; the latter raises \<^verbatim>\<open>KeyError\<close> on a missing key.\<close>

definition dict_get :: "farmer \<Rightarrow> string \<Rightarrow> pyval \<Rightarrow> pyval" where
  "dict_get d k dflt = (case d k of None \<Rightarrow> dflt | Some v \<Rightarrow> v)"

definition subscript :: "farmer \<Rightarrow> string \<Rightarrow> error + pyval" where
  "subscript d k = (case d k of None \<Rightarrow> Inl KeyError | Some v \<Rightarrow> Inr v)"

section \<open>The packing function\<close>

text \<open>
  Step 1, first line: the list comprehension
  \<^verbatim>\<open>[f for f in farmers if float(f.get("load_kg", 0)) > 0]\<close>.
  It visits the farmers in order and stops at the first load that \<^verbatim>\<open>float\<close> rejects.
\<close>

fun valid_farmers :: "farmer list \<Rightarrow> error + farmer list" where
  "valid_farmers [] = Inr []"
| "valid_farmers (f # fs) =
     (case py_float (dict_get f ''load_kg'' (PyInt 0)) of
        Inl e \<Rightarrow> Inl e
      | Inr x \<Rightarrow>
          (case valid_farmers fs of
             Inl e \<Rightarrow> Inl e
           | Inr vs \<Rightarrow> Inr (if x > 0 then f # vs else vs)))"

text \<open>
  Step 1, second line:
  \<^verbatim>\<open>valid_farmers.sort(key=lambda x: float(x["load_kg"]), reverse=True)\<close>.
  Python computes the key of every element first, then sorts stably; with
  \<^verbatim>\<open>reverse=True\<close> the keys descend and elements with equal keys keep their order, which
  is the stable ascending sort on the negated key.
\<close>

definition load_key :: "farmer \<Rightarrow> error + real" where
  "load_key x = (case subscript x ''load_kg'' of Inl e \<Rightarrow> Inl e | Inr v \<Rightarrow> py_float v)"

fun load_keys :: "farmer list \<Rightarrow> error + real list" where
  "load_keys [] = Inr []"
| "load_keys (x # xs) =
     (case load_key x of
        Inl e \<Rightarrow> Inl e
      | Inr k \<Rightarrow> (case load_keys xs of Inl e \<Rightarrow> Inl e | Inr ks \<Rightarrow> Inr (k # ks)))"

definition sort_descending :: "farmer list \<Rightarrow> error + farmer list" where
  "sort_descending fs =
     (case load_keys fs of
        Inl e \<Rightarrow> Inl e
      | Inr ks \<Rightarrow> Inr (map snd (sort_key (\<lambda>p. - fst p) (zip ks fs))))"

text \<open>A truck is the dict \<^verbatim>\<open>{"farmers": [...], "remaining": ...}\<close>.\<close>

record truck =
  farmers :: "pyval list"
  remaining :: real

text \<open>
  The inner \<^verbatim>\<open>for t in trucks\<close> with its \<^verbatim>\<open>break\<close>: the first truck whose remaining
  capacity is at least the load takes the farmer. The flag is \<^verbatim>\<open>placed\<close>.
  \<^verbatim>\<open>f["farmer_id"]\<close> is evaluated only when a truck fits, before anything is written.
\<close>

fun scan :: "farmer \<Rightarrow> real \<Rightarrow> truck list \<Rightarrow> error + (truck list \<times> bool)" where
  "scan f load [] = Inr ([], False)"
| "scan f load (t # ts) =
     (if remaining t \<ge> load then
        (case subscript f ''farmer_id'' of
           Inl e \<Rightarrow> Inl e
         | Inr fid \<Rightarrow>
             Inr (t\<lparr>farmers := farmers t @ [fid], remaining := remaining t - load\<rparr> # ts, True))
      else
        (case scan f load ts of
           Inl e \<Rightarrow> Inl e
         | Inr (ts', placed) \<Rightarrow> Inr (t # ts', placed)))"

text \<open>
  The rest of the loop body once the load is known and the trucks are sorted: the scan, and
  \<^verbatim>\<open>if not placed: trucks.append({...})\<close>, which opens a new truck at the end of the list
  with remaining capacity \<^verbatim>\<open>max(capacity - load, 0)\<close>.
\<close>

definition place :: "real \<Rightarrow> farmer \<Rightarrow> real \<Rightarrow> truck list \<Rightarrow> error + truck list" where
  "place capacity f load trucks =
     (case scan f load trucks of
        Inl e \<Rightarrow> Inl e
      | Inr (trucks', placed) \<Rightarrow>
          if placed then Inr trucks'
          else
            (case subscript f ''farmer_id'' of
               Inl e \<Rightarrow> Inl e
             | Inr fid \<Rightarrow>
                 Inr (trucks' @
                      [\<lparr>farmers = [fid], remaining = max (capacity - load) 0\<rparr>])))"

text \<open>
  One iteration of \<^verbatim>\<open>for f in valid_farmers\<close>: read the load, sort the trucks in place by
  remaining capacity (\<^verbatim>\<open>trucks.sort(key=lambda t: t["remaining"])\<close>, ascending and stable),
  then place the farmer.
\<close>

definition step :: "real \<Rightarrow> farmer \<Rightarrow> truck list \<Rightarrow> error + truck list" where
  "step capacity f trucks =
     (case load_key f of
        Inl e \<Rightarrow> Inl e
      | Inr load \<Rightarrow> place capacity f load (sort_key remaining trucks))"

fun pack_loop :: "real \<Rightarrow> farmer list \<Rightarrow> truck list \<Rightarrow> error + truck list" where
  "pack_loop capacity [] trucks = Inr trucks"
| "pack_loop capacity (f # fs) trucks =
     (case step capacity f trucks of
        Inl e \<Rightarrow> Inl e
      | Inr trucks' \<Rightarrow> pack_loop capacity fs trucks')"

text \<open>The list \<^verbatim>\<open>trucks\<close> as it stands when the loop ends.\<close>

definition pack_trucks :: "farmer list \<Rightarrow> real \<Rightarrow> error + truck list" where
  "pack_trucks fs capacity =
     (case valid_farmers fs of
        Inl e \<Rightarrow> Inl e
      | Inr vs \<Rightarrow>
          (case sort_descending vs of
             Inl e \<Rightarrow> Inl e
           | Inr sorted_vs \<Rightarrow> pack_loop capacity sorted_vs []))"

text \<open>Step 3: \<^verbatim>\<open>return [t["farmers"] for t in trucks]\<close>.\<close>

definition pack_cluster :: "farmer list \<Rightarrow> real \<Rightarrow> error + pyval list list" where
  "pack_cluster fs capacity =
     (case pack_trucks fs capacity of
        Inl e \<Rightarrow> Inl e
      | Inr trucks \<Rightarrow> Inr (map farmers trucks))"

text \<open>An item as the specification writes it: an identifier and a load.\<close>

definition item :: "string \<Rightarrow> pyval \<Rightarrow> farmer" where
  "item i l = [''farmer_id'' \<mapsto> PyStr i, ''load_kg'' \<mapsto> l]"

section \<open>Vocabulary of the properties\<close>

text \<open>
  The load the filter of step 1 computes for an item, whether the item passes the filter,
  and its load and identifier as plain values for the statements below.
\<close>

definition load_value :: "farmer \<Rightarrow> error + real" where
  "load_value f = py_float (dict_get f ''load_kg'' (PyInt 0))"

definition is_valid :: "farmer \<Rightarrow> bool" where
  "is_valid f = (case load_value f of Inl e \<Rightarrow> False | Inr x \<Rightarrow> 0 < x)"

definition load_of :: "farmer \<Rightarrow> real" where
  "load_of f = (case load_value f of Inl e \<Rightarrow> 0 | Inr x \<Rightarrow> x)"

definition id_of :: "farmer \<Rightarrow> pyval" where
  "id_of f = (case f ''farmer_id'' of None \<Rightarrow> PyNone | Some i \<Rightarrow> i)"

text \<open>
  The items a truck carries, written out: \<open>carries capacity gs t\<close> says that the ids of
  truck \<open>t\<close> are those of the valid items \<open>gs\<close>, in order, that there is at least one,
  and that either their loads sum to at most the capacity, with the remaining capacity of the
  truck being the difference, or the truck holds a single item heavier than the capacity
  and has remaining capacity 0.
\<close>

definition carries :: "real \<Rightarrow> farmer list \<Rightarrow> truck \<Rightarrow> bool" where
  "carries capacity gs t =
     (farmers t = map id_of gs \<and> gs \<noteq> [] \<and> list_all is_valid gs \<and>
      (sum_list (map load_of gs) \<le> capacity \<and>
         remaining t = capacity - sum_list (map load_of gs)
       \<or> length gs = 1 \<and> capacity < sum_list (map load_of gs) \<and> remaining t = 0))"

text \<open>
  The inputs on which the call returns: every load is accepted by \<^verbatim>\<open>float\<close>, and every
  item that passes the filter has a \<^verbatim>\<open>"farmer_id"\<close>.
\<close>

definition well_formed :: "farmer list \<Rightarrow> bool" where
  "well_formed fs =
     list_all (\<lambda>f. case load_value f of
                       Inl e \<Rightarrow> False
                     | Inr x \<Rightarrow> x \<le> 0 \<or> f ''farmer_id'' \<noteq> None) fs"



section \<open>Calls as a relation\<close>

text \<open>
  What Python promises of \<^verbatim>\<open>list.sort(key=...)\<close>, without naming an algorithm: the list
  afterwards is a rearrangement of the list before, its keys ascend, and elements with the
  same key keep their order.
\<close>

definition py_sort :: "('a \<Rightarrow> real) \<Rightarrow> 'a list \<Rightarrow> 'a list \<Rightarrow> bool" where
  "py_sort key xs ys =
     (mset ys = mset xs \<and> sorted (map key ys) \<and>
      list_all (\<lambda>x. filter (\<lambda>y. key y = key x) ys = filter (\<lambda>y. key y = key x) xs) ys)"

text \<open>
  A run of the loop, and a call of \<^verbatim>\<open>pack_cluster\<close>, with each sort taken only by that
  promise: \<open>call fs capacity out\<close> says that a call on \<open>fs\<close> and \<open>capacity\<close> can end with
  \<open>out\<close>, an error raised or a result returned.
\<close>

inductive loop_run :: "real \<Rightarrow> farmer list \<Rightarrow> truck list \<Rightarrow> error + truck list \<Rightarrow> bool"
  for capacity :: real where
  finished: "loop_run capacity [] trucks (Inr trucks)"
| bad_load: "load_key f = Inl e \<Longrightarrow> loop_run capacity (f # fs) trucks (Inl e)"
| bad_place:
    "load_key f = Inr load \<Longrightarrow> py_sort remaining trucks sorted_trucks \<Longrightarrow>
     place capacity f load sorted_trucks = Inl e \<Longrightarrow>
     loop_run capacity (f # fs) trucks (Inl e)"
| iteration:
    "load_key f = Inr load \<Longrightarrow> py_sort remaining trucks sorted_trucks \<Longrightarrow>
     place capacity f load sorted_trucks = Inr trucks' \<Longrightarrow>
     loop_run capacity fs trucks' out \<Longrightarrow>
     loop_run capacity (f # fs) trucks out"

inductive call :: "farmer list \<Rightarrow> real \<Rightarrow> error + pyval list list \<Rightarrow> bool" where
  bad_filter: "valid_farmers fs = Inl e \<Longrightarrow> call fs capacity (Inl e)"
| bad_key:
    "valid_farmers fs = Inr vs \<Longrightarrow> load_keys vs = Inl e \<Longrightarrow> call fs capacity (Inl e)"
| raised:
    "valid_farmers fs = Inr vs \<Longrightarrow> load_keys vs = Inr ks \<Longrightarrow>
     py_sort (\<lambda>p. - fst p) (zip ks vs) decorated \<Longrightarrow>
     loop_run capacity (map snd decorated) [] (Inl e) \<Longrightarrow>
     call fs capacity (Inl e)"
| returned:
    "valid_farmers fs = Inr vs \<Longrightarrow> load_keys vs = Inr ks \<Longrightarrow>
     py_sort (\<lambda>p. - fst p) (zip ks vs) decorated \<Longrightarrow>
     loop_run capacity (map snd decorated) [] (Inr trucks) \<Longrightarrow>
     call fs capacity (Inr (map farmers trucks))"

section \<open>The call on a store\<close>

text \<open>
  To say what a call leaves untouched, the objects of the program are placed in a store:
  a list of objects, an object's address being its position. The lists \<^verbatim>\<open>farmers\<close>,
  \<^verbatim>\<open>valid_farmers\<close> and \<^verbatim>\<open>trucks\<close> and the returned list hold references; an item is a
  dict; a truck is the dict \<^verbatim>\<open>{"farmers": l, "remaining": r}\<close> with \<open>l\<close> the address of its
  list of ids. A new object is added at the end of the store, and a write replaces the
  object at an address.
\<close>

type_synonym addr = nat

datatype obj =
    RefList "addr list"
  | Dict farmer
  | Truck addr real
  | IdList "pyval list"

type_synonym store = "obj list"

datatype 'a outcome = Raised error store | Returned 'a store

text \<open>
  A call ends by raising or by returning; either way it leaves a store behind.
\<close>

fun store_of :: "'a outcome \<Rightarrow> store" where
  "store_of (Raised e h) = h"
| "store_of (Returned x h) = h"

definition alloc :: "store \<Rightarrow> obj \<Rightarrow> addr \<times> store" where
  "alloc h ob = (length h, h @ [ob])"

definition ref_list :: "store \<Rightarrow> addr \<Rightarrow> error + addr list" where
  "ref_list h a =
     (if a < length h then (case h ! a of RefList xs \<Rightarrow> Inr xs | _ \<Rightarrow> Inl TypeError)
      else Inl TypeError)"

definition dict_at :: "store \<Rightarrow> addr \<Rightarrow> error + farmer" where
  "dict_at h a =
     (if a < length h then (case h ! a of Dict d \<Rightarrow> Inr d | _ \<Rightarrow> Inl TypeError)
      else Inl TypeError)"

definition truck_at :: "store \<Rightarrow> addr \<Rightarrow> error + (addr \<times> real)" where
  "truck_at h a =
     (if a < length h then (case h ! a of Truck fa r \<Rightarrow> Inr (fa, r) | _ \<Rightarrow> Inl TypeError)
      else Inl TypeError)"

definition id_list :: "store \<Rightarrow> addr \<Rightarrow> error + pyval list" where
  "id_list h a =
     (if a < length h then (case h ! a of IdList xs \<Rightarrow> Inr xs | _ \<Rightarrow> Inl TypeError)
      else Inl TypeError)"

text \<open>
  The reads of step 1 and of the two sort keys go through the store. A reference that does
  not lead to an object of the expected shape raises \<^verbatim>\<open>TypeError\<close>.
\<close>

fun select_valid :: "store \<Rightarrow> addr list \<Rightarrow> error + addr list" where
  "select_valid h [] = Inr []"
| "select_valid h (x # xs) =
     (case dict_at h x of
        Inl e \<Rightarrow> Inl e
      | Inr f \<Rightarrow>
          (case py_float (dict_get f ''load_kg'' (PyInt 0)) of
             Inl e \<Rightarrow> Inl e
           | Inr l \<Rightarrow>
               (case select_valid h xs of
                  Inl e \<Rightarrow> Inl e
                | Inr vs \<Rightarrow> Inr (if l > 0 then x # vs else vs))))"

fun load_keys_at :: "store \<Rightarrow> addr list \<Rightarrow> error + real list" where
  "load_keys_at h [] = Inr []"
| "load_keys_at h (x # xs) =
     (case dict_at h x of
        Inl e \<Rightarrow> Inl e
      | Inr f \<Rightarrow>
          (case load_key f of
             Inl e \<Rightarrow> Inl e
           | Inr k \<Rightarrow>
               (case load_keys_at h xs of Inl e \<Rightarrow> Inl e | Inr ks \<Rightarrow> Inr (k # ks))))"

fun remaining_keys_at :: "store \<Rightarrow> addr list \<Rightarrow> error + real list" where
  "remaining_keys_at h [] = Inr []"
| "remaining_keys_at h (t # ts) =
     (case truck_at h t of
        Inl e \<Rightarrow> Inl e
      | Inr (fa, r) \<Rightarrow>
          (case remaining_keys_at h ts of Inl e \<Rightarrow> Inl e | Inr ks \<Rightarrow> Inr (r # ks)))"

fun farmers_at :: "store \<Rightarrow> addr list \<Rightarrow> error + addr list" where
  "farmers_at h [] = Inr []"
| "farmers_at h (t # ts) =
     (case truck_at h t of
        Inl e \<Rightarrow> Inl e
      | Inr (fa, r) \<Rightarrow>
          (case farmers_at h ts of Inl e \<Rightarrow> Inl e | Inr fas \<Rightarrow> Inr (fa # fas)))"

text \<open>
  The inner loop. A truck that fits has the id appended to its list in place
  (\<^verbatim>\<open>t["farmers"].append(f["farmer_id"])\<close>), then its remaining capacity is read again and
  overwritten (\<^verbatim>\<open>t["remaining"] -= load\<close>).
\<close>

fun store_scan :: "addr \<Rightarrow> real \<Rightarrow> addr list \<Rightarrow> store \<Rightarrow> bool outcome" where
  "store_scan f load [] h = Returned False h"
| "store_scan f load (t # ts) h =
     (case truck_at h t of
        Inl e \<Rightarrow> Raised e h
      | Inr (fa, r) \<Rightarrow>
          if r \<ge> load then
            (case dict_at h f of
               Inl e \<Rightarrow> Raised e h
             | Inr d \<Rightarrow>
                 (case subscript d ''farmer_id'' of
                    Inl e \<Rightarrow> Raised e h
                  | Inr fid \<Rightarrow>
                      (case id_list h fa of
                         Inl e \<Rightarrow> Raised e h
                       | Inr ids \<Rightarrow>
                           (case truck_at (h[fa := IdList (ids @ [fid])]) t of
                              Inl e \<Rightarrow> Raised e (h[fa := IdList (ids @ [fid])])
                            | Inr (fa', r') \<Rightarrow>
                                Returned True
                                  (h[fa := IdList (ids @ [fid]),
                                     t := Truck fa' (r' - load)])))))
          else store_scan f load ts h)"

text \<open>
  \<^verbatim>\<open>if not placed\<close>: a new list of ids and a new truck are created, and the reference to the
  truck is appended to the list \<^verbatim>\<open>trucks\<close> in place.
\<close>

definition store_place :: "real \<Rightarrow> addr \<Rightarrow> addr \<Rightarrow> real \<Rightarrow> addr list \<Rightarrow> store \<Rightarrow> unit outcome" where
  "store_place capacity trucks f load ts h =
     (case store_scan f load ts h of
        Raised e h' \<Rightarrow> Raised e h'
      | Returned placed h' \<Rightarrow>
          if placed then Returned () h'
          else
            (case dict_at h' f of
               Inl e \<Rightarrow> Raised e h'
             | Inr d \<Rightarrow>
                 (case subscript d ''farmer_id'' of
                    Inl e \<Rightarrow> Raised e h'
                  | Inr fid \<Rightarrow>
                      (case alloc h' (IdList [fid]) of
                         (fa, h1) \<Rightarrow>
                           (case alloc h1 (Truck fa (max (capacity - load) 0)) of
                              (t, h2) \<Rightarrow>
                                (case ref_list h2 trucks of
                                   Inl e \<Rightarrow> Raised e h2
                                 | Inr ts' \<Rightarrow>
                                     Returned () (h2[trucks := RefList (ts' @ [t])])))))))"

text \<open>
  One iteration: \<^verbatim>\<open>trucks.sort(...)\<close> overwrites the list \<^verbatim>\<open>trucks\<close> with its sorted
  rearrangement.
\<close>

definition store_step :: "real \<Rightarrow> addr \<Rightarrow> addr \<Rightarrow> store \<Rightarrow> unit outcome" where
  "store_step capacity trucks f h =
     (case dict_at h f of
        Inl e \<Rightarrow> Raised e h
      | Inr d \<Rightarrow>
          (case load_key d of
             Inl e \<Rightarrow> Raised e h
           | Inr load \<Rightarrow>
               (case ref_list h trucks of
                  Inl e \<Rightarrow> Raised e h
                | Inr ts \<Rightarrow>
                    (case remaining_keys_at h ts of
                       Inl e \<Rightarrow> Raised e h
                     | Inr ks \<Rightarrow>
                         store_place capacity trucks f load
                           (map snd (sort_key fst (zip ks ts)))
                           (h[trucks := RefList (map snd (sort_key fst (zip ks ts)))])))))"

fun store_loop :: "real \<Rightarrow> addr \<Rightarrow> addr list \<Rightarrow> store \<Rightarrow> unit outcome" where
  "store_loop capacity trucks [] h = Returned () h"
| "store_loop capacity trucks (f # fs) h =
     (case store_step capacity trucks f h of
        Raised e h' \<Rightarrow> Raised e h'
      | Returned u h' \<Rightarrow> store_loop capacity trucks fs h')"

text \<open>
  The whole call. \<open>farmers_arg\<close> is the address of the argument \<^verbatim>\<open>farmers\<close>. The list
  comprehension creates the list \<^verbatim>\<open>valid_farmers\<close>, which holds references to the very dicts
  of the input; \<^verbatim>\<open>valid_farmers.sort\<close> overwrites that new list; \<^verbatim>\<open>trucks = []\<close> creates
  the list of trucks; the result is a new list of references to the trucks' lists of ids.
\<close>

definition pack_cluster_store :: "store \<Rightarrow> addr \<Rightarrow> real \<Rightarrow> addr outcome" where
  "pack_cluster_store h farmers_arg capacity =
     (case ref_list h farmers_arg of
        Inl e \<Rightarrow> Raised e h
      | Inr fs \<Rightarrow>
          (case select_valid h fs of
             Inl e \<Rightarrow> Raised e h
           | Inr vs \<Rightarrow>
               (case alloc h (RefList vs) of
                  (valid, h1) \<Rightarrow>
                    (case load_keys_at h1 vs of
                       Inl e \<Rightarrow> Raised e h1
                     | Inr ks \<Rightarrow>
                         (case alloc (h1[valid := RefList (map snd (sort_key (\<lambda>p. - fst p) (zip ks vs)))])
                                 (RefList []) of
                            (trucks, h3) \<Rightarrow>
                              (case ref_list h3 valid of
                                 Inl e \<Rightarrow> Raised e h3
                               | Inr sorted_vs \<Rightarrow>
                                   (case store_loop capacity trucks sorted_vs h3 of
                                      Raised e h4 \<Rightarrow> Raised e h4
                                    | Returned u h4 \<Rightarrow>
                                        (case ref_list h4 trucks of
                                           Inl e \<Rightarrow> Raised e h4
                                         | Inr ts \<Rightarrow>
                                             (case farmers_at h4 ts of
                                                Inl e \<Rightarrow> Raised e h4
                                              | Inr fas \<Rightarrow>
                                                  (case alloc h4 (RefList fas) of
                                                     (res, h5) \<Rightarrow> Returned res h5))))))))))"

text \<open>
  The returned value read back from the store, as lists of ids.
\<close>

fun id_lists :: "store \<Rightarrow> addr list \<Rightarrow> error + pyval list list" where
  "id_lists h [] = Inr []"
| "id_lists h (a # as) =
     (case id_list h a of
        Inl e \<Rightarrow> Inl e
      | Inr ids \<Rightarrow> (case id_lists h as of Inl e \<Rightarrow> Inl e | Inr r \<Rightarrow> Inr (ids # r)))"

definition result_of :: "addr outcome \<Rightarrow> error + pyval list list" where
  "result_of out =
     (case out of
        Raised e h \<Rightarrow> Inl e
      | Returned res h \<Rightarrow>
          (case ref_list h res of Inl e \<Rightarrow> Inl e | Inr fas \<Rightarrow> id_lists h fas))"

text \<open>
  Two notions for the proofs: the objects the call has created refer, as far as trucks and
  the list of trucks go, only to objects at address \<open>n\<close> or above; and two stores agree
  below address \<open>n\<close>.
\<close>

definition obj_fresh :: "nat \<Rightarrow> addr \<Rightarrow> addr \<Rightarrow> obj \<Rightarrow> bool" where
  "obj_fresh n trucks a ob =
     (case ob of
        RefList ts \<Rightarrow> a \<noteq> trucks \<or> list_all (\<lambda>t. n \<le> t) ts
      | Truck fa r \<Rightarrow> n \<le> fa
      | _ \<Rightarrow> True)"

definition trucks_fresh :: "nat \<Rightarrow> addr \<Rightarrow> store \<Rightarrow> bool" where
  "trucks_fresh n trucks h =
     (n \<le> length h \<and> n \<le> trucks \<and>
      (\<forall>a<length h. n \<le> a \<longrightarrow> obj_fresh n trucks a (h ! a)))"

definition unchanged_below :: "nat \<Rightarrow> store \<Rightarrow> store \<Rightarrow> bool" where
  "unchanged_below n h h' = (take n h' = take n h)"

text \<open>
  How a store is read as the values of the functional model: the dict at an address; the
  truck at an address, with the ids found in its list; and a list of distinct trucks with
  distinct lists of ids.
\<close>

definition the_dict :: "store \<Rightarrow> addr \<Rightarrow> farmer" where
  "the_dict h x = (case dict_at h x of Inl e \<Rightarrow> Map.empty | Inr d \<Rightarrow> d)"

definition ids_addr :: "store \<Rightarrow> addr \<Rightarrow> addr" where
  "ids_addr h t = (case truck_at h t of Inl e \<Rightarrow> 0 | Inr (fa, r) \<Rightarrow> fa)"

definition truck_rel :: "store \<Rightarrow> addr \<Rightarrow> truck \<Rightarrow> bool" where
  "truck_rel h t tr =
     (case truck_at h t of
        Inl e \<Rightarrow> False
      | Inr (fa, r) \<Rightarrow> r = remaining tr \<and> id_list h fa = Inr (farmers tr))"

definition is_dict :: "store \<Rightarrow> addr \<Rightarrow> bool" where
  "is_dict h x = (case dict_at h x of Inl e \<Rightarrow> False | Inr d \<Rightarrow> True)"

definition trucks_rel :: "store \<Rightarrow> addr list \<Rightarrow> truck list \<Rightarrow> bool" where
  "trucks_rel h ts trs =
     (distinct ts \<and> distinct (map (ids_addr h) ts) \<and> list_all2 (truck_rel h) ts trs)"

section \<open>The packing function in binary64 arithmetic\<close>























section \<open>Filtering and the descending sort\<close>

lemma valid_farmers_Inr:
  "valid_farmers fs = Inr vs \<Longrightarrow> vs = filter is_valid fs \<and> (\<forall>f\<in>set fs. \<exists>x. load_value f = Inr x)"
  by (induction fs arbitrary: vs)
     (auto simp: load_value_def is_valid_def split: sum.splits if_splits)

lemma valid_farmers_total:
  "\<forall>f\<in>set fs. \<exists>x. load_value f = Inr x \<Longrightarrow> valid_farmers fs = Inr (filter is_valid fs)"
  by (induction fs) (auto simp: load_value_def is_valid_def split: sum.splits)

lemma valid_farmers_Inl:
  "f \<in> set fs \<Longrightarrow> load_value f = Inl e \<Longrightarrow> \<exists>e'. valid_farmers fs = Inl e'"
  by (induction fs) (auto simp: load_value_def split: sum.splits)

lemma load_key_valid: "is_valid f \<Longrightarrow> load_key f = Inr (load_of f)"
  by (auto simp: is_valid_def load_of_def load_value_def load_key_def subscript_def dict_get_def
      split: sum.splits option.splits)

lemma load_of_pos: "is_valid f \<Longrightarrow> 0 < load_of f"
  by (auto simp: is_valid_def load_of_def split: sum.splits)

lemma load_keys_valid: "\<forall>f\<in>set vs. is_valid f \<Longrightarrow> load_keys vs = Inr (map load_of vs)"
  by (induction vs) (auto simp: load_key_valid)

lemma insort_decorated:
  "\<forall>p\<in>set ps. fst p = g (snd p) \<Longrightarrow>
   map snd (insort_key (\<lambda>p. - fst p) (g x, x) ps) = insort_key (\<lambda>y. - g y) x (map snd ps)"
  by (induction ps) auto

lemma sort_decorated_aux:
  "map snd (sort_key (\<lambda>p. - fst p) (zip (map g xs) xs)) = sort_key (\<lambda>y. - g y) xs
   \<and> (\<forall>p\<in>set (sort_key (\<lambda>p. - fst p) (zip (map g xs) xs)). fst p = g (snd p))"
  by (induction xs) (auto simp: insort_decorated set_insort_key)

lemma sort_descending_valid:
  "\<forall>f\<in>set vs. is_valid f \<Longrightarrow>
   sort_descending vs = Inr (sort_key (\<lambda>f. - load_of f) vs)"
  by (simp add: sort_descending_def load_keys_valid sort_decorated_aux)

section \<open>One placement\<close>

lemma scan_not_placed:
  "scan f load ts = Inr (ts', False) \<Longrightarrow> ts' = ts \<and> (\<forall>x\<in>set ts. remaining x < load)"
proof (induction ts arbitrary: ts')
  case Nil
  then show ?case by simp
next
  case (Cons t ts)
  from Cons.prems have nf: "\<not> load \<le> remaining t"
    by (cases "load \<le> remaining t") (simp_all split: sum.splits)
  with Cons.prems obtain us where s: "scan f load ts = Inr (us, False)" and ts': "ts' = t # us"
    by (simp split: sum.splits prod.splits)
  from Cons.IH[OF s] nf ts' show ?case by simp
qed

lemma scan_placed:
  "scan f load ts = Inr (ts', True) \<Longrightarrow>
   \<exists>xs t ys i. ts = xs @ t # ys \<and> (\<forall>x\<in>set xs. remaining x < load)
            \<and> load \<le> remaining t \<and> f ''farmer_id'' = Some i
            \<and> ts' = xs @ t\<lparr>farmers := farmers t @ [i], remaining := remaining t - load\<rparr> # ys"
proof (induction ts arbitrary: ts')
  case Nil
  then show ?case by simp
next
  case (Cons t ts)
  show ?case
  proof (cases "load \<le> remaining t")
    case True
    with Cons.prems obtain i where i: "f ''farmer_id'' = Some i"
      and r: "ts' = t\<lparr>farmers := farmers t @ [i], remaining := remaining t - load\<rparr> # ts"
      by (simp add: subscript_def split: option.splits)
    have "t # ts = [] @ t # ts \<and> (\<forall>x\<in>set []. remaining x < load)" by simp
    with True i r show ?thesis by (metis append_Nil)
  next
    case False
    with Cons.prems obtain us where s: "scan f load ts = Inr (us, True)" and ts': "ts' = t # us"
      by (simp split: sum.splits prod.splits)
    from Cons.IH[OF s] obtain xs u ys i where p: "ts = xs @ u # ys" "\<forall>x\<in>set xs. remaining x < load"
        "load \<le> remaining u" "f ''farmer_id'' = Some i"
        "us = xs @ u\<lparr>farmers := farmers u @ [i], remaining := remaining u - load\<rparr> # ys" by blast
    have "t # ts = (t # xs) @ u # ys" using p by simp
    moreover have "\<forall>x\<in>set (t # xs). remaining x < load" using p False by simp
    moreover have "ts' = (t # xs) @ u\<lparr>farmers := farmers u @ [i], remaining := remaining u - load\<rparr> # ys"
      using p ts' by simp
    ultimately show ?thesis using p by blast
  qed
qed

lemma step_cases:
  assumes "step cap f ts = Inr ts'" and "is_valid f"
  obtains (placed) xs t ys i where "sort_key remaining ts = xs @ t # ys"
      "\<forall>x\<in>set xs. remaining x < load_of f" "load_of f \<le> remaining t" "f ''farmer_id'' = Some i"
      "ts' = xs @ t\<lparr>farmers := farmers t @ [i], remaining := remaining t - load_of f\<rparr> # ys"
  | (opened) i where "\<forall>x\<in>set ts. remaining x < load_of f" "f ''farmer_id'' = Some i"
      "ts' = sort_key remaining ts @ [\<lparr>farmers = [i], remaining = max (cap - load_of f) 0\<rparr>]"
proof -
  from assms obtain us pl where s: "scan f (load_of f) (sort_key remaining ts) = Inr (us, pl)"
    by (simp add: step_def place_def load_key_valid split: sum.splits prod.splits)
  show thesis
  proof (cases pl)
    case True
    with s assms have e: "ts' = us" by (simp add: step_def place_def load_key_valid)
    from s True have "scan f (load_of f) (sort_key remaining ts) = Inr (us, True)" by simp
    from scan_placed[OF this] obtain xs t ys i where
      "sort_key remaining ts = xs @ t # ys" "\<forall>x\<in>set xs. remaining x < load_of f"
      "load_of f \<le> remaining t" "f ''farmer_id'' = Some i"
      "us = xs @ t\<lparr>farmers := farmers t @ [i], remaining := remaining t - load_of f\<rparr> # ys"
      by blast
    with e show thesis using placed by blast
  next
    case False
    with s assms obtain i where i: "f ''farmer_id'' = Some i"
      "ts' = us @ [\<lparr>farmers = [i], remaining = max (cap - load_of f) 0\<rparr>]"
      by (simp add: step_def place_def load_key_valid subscript_def split: option.splits)
    from s False have "scan f (load_of f) (sort_key remaining ts) = Inr (us, False)" by simp
    from scan_not_placed[OF this]
    have "us = sort_key remaining ts" "\<forall>x\<in>set ts. remaining x < load_of f" by simp_all
    with i opened show thesis by blast
  qed
qed

section \<open>Worked examples\<close>

text \<open>
  C7. Items (A, 2500), (B, 2500), (C, 2500) with capacity 5000: two carriers are returned,
  the first with A and B (their loads sum to the capacity, an exact fit, and the remaining
  capacity of that truck is 0), the second with C alone (remaining capacity 2500).
\<close>

theorem C7_three_equal_loads:
  "pack_cluster [item ''A'' (PyInt 2500), item ''B'' (PyInt 2500), item ''C'' (PyInt 2500)] 5000
     = Inr [[PyStr ''A'', PyStr ''B''], [PyStr ''C'']]
   \<and> pack_trucks [item ''A'' (PyInt 2500), item ''B'' (PyInt 2500), item ''C'' (PyInt 2500)] 5000
     = Inr [\<lparr>farmers = [PyStr ''A'', PyStr ''B''], remaining = 0\<rparr>,
            \<lparr>farmers = [PyStr ''C''], remaining = 2500\<rparr>]"
  by (simp add: pack_cluster_def pack_trucks_def sort_descending_def step_def place_def load_key_def
      subscript_def dict_get_def item_def)

section \<open>The items each truck carries\<close>

lemma list_all2_permuted:
  "list_all2 P xs ys \<Longrightarrow> mset ys' = mset ys \<Longrightarrow>
   \<exists>xs'. mset xs' = mset xs \<and> list_all2 P xs' ys'"
proof (induction ys' arbitrary: xs ys)
  case Nil
  then show ?case by simp
next
  case (Cons y ys')
  from Cons.prems(2) have "y \<in> set ys" by (metis list.set_intros(1) set_mset_mset)
  then obtain as bs where ys: "ys = as @ y # bs" by (meson split_list)
  with Cons.prems(1) obtain as' x bs' where xs: "xs = as' @ x # bs'"
    and a: "list_all2 P as' as" and x: "P x y" and b: "list_all2 P bs' bs"
    by (auto simp: list_all2_append2 list_all2_Cons2)
  from a b have ab: "list_all2 P (as' @ bs') (as @ bs)" by (simp add: list_all2_appendI)
  from Cons.prems(2) ys have "mset ys' = mset (as @ bs)" by simp
  from Cons.IH[OF ab this] obtain xs' where "mset xs' = mset (as' @ bs')" "list_all2 P xs' ys'"
    by blast
  with x xs have "mset (x # xs') = mset xs \<and> list_all2 P (x # xs') (y # ys')" by simp
  then show ?case by blast
qed

lemma mset_concat_cong: "mset xss = mset yss \<Longrightarrow> mset (concat xss) = mset (concat yss)"
proof -
  assume a: "mset xss = mset yss"
  have "\<And>zss::'a list list. mset (concat zss) = sum_mset (image_mset mset (mset zss))"
    by (simp add: mset_concat flip: sum_mset_sum_list)
  with a show ?thesis by simp
qed

lemma carries_placed:
  assumes c: "carries cap gs t" and v: "is_valid f" and fit: "load_of f \<le> remaining t"
    and i: "f ''farmer_id'' = Some i"
  shows "carries cap (gs @ [f]) (t\<lparr>farmers := farmers t @ [i], remaining := remaining t - load_of f\<rparr>)"
proof -
  from v have pos: "0 < load_of f" by (rule load_of_pos)
  with fit have "remaining t \<noteq> 0" by simp
  with c have le: "sum_list (map load_of gs) \<le> cap"
    and r: "remaining t = cap - sum_list (map load_of gs)"
    by (auto simp: carries_def)
  from i have "id_of f = i" by (simp add: id_of_def)
  with c v le r fit show ?thesis by (simp add: carries_def)
qed

lemma carries_opened:
  assumes v: "is_valid f" and i: "f ''farmer_id'' = Some i"
  shows "carries cap [f] \<lparr>farmers = [i], remaining = max (cap - load_of f) 0\<rparr>"
proof -
  from i have "id_of f = i" by (simp add: id_of_def)
  with v show ?thesis by (cases "load_of f \<le> cap") (simp_all add: carries_def max_def)
qed

lemma step_carries:
  assumes inv: "list_all2 (carries cap) gss ts" and v: "is_valid f"
    and st: "step cap f ts = Inr ts'"
  shows "\<exists>gss'. list_all2 (carries cap) gss' ts' \<and> mset (concat gss') = mset (concat gss) + {#f#}"
proof -
  have "mset (sort_key remaining ts) = mset ts" by simp
  from list_all2_permuted[OF inv this] obtain gss1 where
    m1: "mset gss1 = mset gss" and l1: "list_all2 (carries cap) gss1 (sort_key remaining ts)"
    by blast
  from m1 have c1: "mset (concat gss1) = mset (concat gss)" by (rule mset_concat_cong)
  from st v show ?thesis
  proof (cases rule: step_cases)
    case (placed xs t ys i)
    from l1 placed(1) obtain gxs gs gys where g: "gss1 = gxs @ gs # gys"
      and a: "list_all2 (carries cap) gxs xs" and b: "carries cap gs t"
      and c: "list_all2 (carries cap) gys ys"
      by (auto simp: list_all2_append2 list_all2_Cons2)
    from carries_placed[OF b v placed(3) placed(4)] a c placed(5)
    have "list_all2 (carries cap) (gxs @ (gs @ [f]) # gys) ts'"
      by (simp add: list_all2_appendI)
    moreover from g c1 have "mset (concat (gxs @ (gs @ [f]) # gys)) = mset (concat gss) + {#f#}"
      by simp
    ultimately show ?thesis by blast
  next
    case (opened i)
    from carries_opened[OF v opened(2), of cap] l1 opened(3)
    have "list_all2 (carries cap) (gss1 @ [[f]]) ts'"
      by (simp add: list_all2_appendI)
    moreover from c1 have "mset (concat (gss1 @ [[f]])) = mset (concat gss) + {#f#}" by simp
    ultimately show ?thesis by blast
  qed
qed

lemma pack_loop_carries:
  "list_all2 (carries cap) gss ts \<Longrightarrow> \<forall>f\<in>set fs. is_valid f \<Longrightarrow>
   pack_loop cap fs ts = Inr ts' \<Longrightarrow>
   \<exists>gss'. list_all2 (carries cap) gss' ts' \<and> mset (concat gss') = mset (concat gss) + mset fs"
proof (induction fs arbitrary: gss ts)
  case Nil
  then show ?case by auto
next
  case (Cons f fs)
  from Cons.prems(3) obtain ts1 where s: "step cap f ts = Inr ts1"
    and l: "pack_loop cap fs ts1 = Inr ts'"
    by (simp split: sum.splits)
  from Cons.prems(2) have v: "is_valid f" and vs: "\<forall>f\<in>set fs. is_valid f" by simp_all
  from step_carries[OF Cons.prems(1) v s] obtain gss1 where
    i1: "list_all2 (carries cap) gss1 ts1" and m1: "mset (concat gss1) = mset (concat gss) + {#f#}"
    by blast
  from Cons.IH[OF i1 vs l] obtain gss' where
    "list_all2 (carries cap) gss' ts'" "mset (concat gss') = mset (concat gss1) + mset fs"
    by blast
  with m1 have "list_all2 (carries cap) gss' ts' \<and>
    mset (concat gss') = mset (concat gss) + mset (f # fs)" by simp
  then show ?case by blast
qed

lemma pack_trucks_sorted_loop:
  assumes "pack_trucks fs cap = Inr ts"
  shows "pack_loop cap (sort_key (\<lambda>f. - load_of f) (filter is_valid fs)) [] = Inr ts"
    and "\<forall>f\<in>set fs. \<exists>x. load_value f = Inr x"
proof -
  from assms obtain vs where vs: "valid_farmers fs = Inr vs"
    by (auto simp: pack_trucks_def split: sum.splits)
  from valid_farmers_Inr[OF vs] have e: "vs = filter is_valid fs"
    and t: "\<forall>f\<in>set fs. \<exists>x. load_value f = Inr x" by simp_all
  from e have "sort_descending vs = Inr (sort_key (\<lambda>f. - load_of f) (filter is_valid fs))"
    by (simp add: sort_descending_valid)
  with assms vs show "pack_loop cap (sort_key (\<lambda>f. - load_of f) (filter is_valid fs)) [] = Inr ts"
    by (simp add: pack_trucks_def)
  from t show "\<forall>f\<in>set fs. \<exists>x. load_value f = Inr x" .
qed

lemma pack_trucks_carries:
  assumes "pack_trucks fs cap = Inr ts"
  shows "\<exists>gss. list_all2 (carries cap) gss ts \<and> mset (concat gss) = mset (filter is_valid fs)"
proof -
  have "list_all2 (carries cap) [] []" by simp
  from pack_loop_carries[OF this _ pack_trucks_sorted_loop(1)[OF assms]]
  show ?thesis by simp
qed

section \<open>When the call returns\<close>

lemma scan_total:
  "f ''farmer_id'' = Some i \<Longrightarrow> \<exists>us pl. scan f load ts = Inr (us, pl)"
  by (induction ts) (auto simp: subscript_def)

lemma step_total:
  assumes "is_valid f" and "f ''farmer_id'' = Some i"
  shows "\<exists>ts'. step cap f ts = Inr ts'"
proof -
  from scan_total[of f i "load_of f" "sort_key remaining ts"] assms(2) obtain us pl
    where "scan f (load_of f) (sort_key remaining ts) = Inr (us, pl)" by blast
  with assms show ?thesis by (simp add: step_def place_def load_key_valid subscript_def)
qed

lemma pack_loop_total:
  "\<forall>f\<in>set fs. is_valid f \<and> f ''farmer_id'' \<noteq> None \<Longrightarrow> \<exists>ts'. pack_loop cap fs ts = Inr ts'"
proof (induction fs arbitrary: ts)
  case Nil
  then show ?case by simp
next
  case (Cons f fs)
  then obtain i where "is_valid f" "f ''farmer_id'' = Some i" by auto
  with step_total[of f i cap ts] obtain ts1 where "step cap f ts = Inr ts1" by blast
  moreover from Cons obtain ts' where "pack_loop cap fs ts1 = Inr ts'" by auto
  ultimately show ?case by simp
qed

lemma well_formed_iff:
  "well_formed fs \<longleftrightarrow>
   (\<forall>f\<in>set fs. (\<exists>x. load_value f = Inr x) \<and> (is_valid f \<longrightarrow> f ''farmer_id'' \<noteq> None))"
  by (auto simp: well_formed_def list_all_iff is_valid_def split: sum.splits)

lemma pack_trucks_total:
  assumes "well_formed fs"
  shows "\<exists>ts. pack_trucks fs cap = Inr ts"
proof -
  from assms have c: "\<forall>f\<in>set fs. \<exists>x. load_value f = Inr x"
    and i: "\<forall>f\<in>set fs. is_valid f \<longrightarrow> f ''farmer_id'' \<noteq> None"
    by (simp_all add: well_formed_iff)
  have v: "valid_farmers fs = Inr (filter is_valid fs)" using c by (rule valid_farmers_total)
  have s: "sort_descending (filter is_valid fs) = Inr (sort_key (\<lambda>f. - load_of f) (filter is_valid fs))"
    by (simp add: sort_descending_valid)
  from i have "\<forall>f\<in>set (sort_key (\<lambda>f. - load_of f) (filter is_valid fs)).
     is_valid f \<and> f ''farmer_id'' \<noteq> None" by simp
  from pack_loop_total[OF this] obtain ts
    where "pack_loop cap (sort_key (\<lambda>f. - load_of f) (filter is_valid fs)) [] = Inr ts" by blast
  with v s show ?thesis by (simp add: pack_trucks_def)
qed

lemma pack_cluster_Inr:
  "pack_cluster fs cap = Inr r \<longleftrightarrow> (\<exists>ts. pack_trucks fs cap = Inr ts \<and> r = map farmers ts)"
  by (auto simp: pack_cluster_def split: sum.splits)

lemma carriers_groups:
  assumes "pack_cluster fs cap = Inr r"
  shows "\<exists>gss. r = map (map id_of) gss \<and> mset (concat gss) = mset (filter is_valid fs) \<and>
     (\<forall>gs\<in>set gss. gs \<noteq> [] \<and>
        (sum_list (map load_of gs) \<le> cap \<or> length gs = 1 \<and> cap < sum_list (map load_of gs)))"
proof -
  from assms obtain ts where ts: "pack_trucks fs cap = Inr ts" and r: "r = map farmers ts"
    by (auto simp: pack_cluster_Inr)
  from pack_trucks_carries[OF ts] obtain gss where l: "list_all2 (carries cap) gss ts"
    and m: "mset (concat gss) = mset (filter is_valid fs)" by blast
  from l have "map farmers ts = map (map id_of) gss"
    by (induction gss ts rule: list_all2_induct) (simp_all add: carries_def)
  moreover from l have "\<forall>gs\<in>set gss. gs \<noteq> [] \<and>
        (sum_list (map load_of gs) \<le> cap \<or> length gs = 1 \<and> cap < sum_list (map load_of gs))"
    by (induction gss ts rule: list_all2_induct) (auto simp: carries_def)
  ultimately show ?thesis using r m by blast
qed

lemma pack_loop_ids:
  "pack_loop cap fs ts = Inr ts' \<Longrightarrow> \<forall>f\<in>set fs. is_valid f \<Longrightarrow>
   \<forall>f\<in>set fs. f ''farmer_id'' \<noteq> None"
proof (induction fs arbitrary: ts)
  case Nil
  then show ?case by simp
next
  case (Cons f fs)
  from Cons.prems(1) obtain ts1 where s: "step cap f ts = Inr ts1"
    and l: "pack_loop cap fs ts1 = Inr ts'"
    by (simp split: sum.splits)
  from Cons.prems(2) have v: "is_valid f" and vs: "\<forall>f\<in>set fs. is_valid f" by simp_all
  from s v have "f ''farmer_id'' \<noteq> None" by (cases rule: step_cases) simp_all
  with Cons.IH[OF l vs] show ?case by simp
qed

lemma pack_cluster_returns_iff:
  "(\<exists>r. pack_cluster fs cap = Inr r) \<longleftrightarrow> well_formed fs"
proof
  assume "\<exists>r. pack_cluster fs cap = Inr r"
  then obtain ts where ts: "pack_trucks fs cap = Inr ts" by (auto simp: pack_cluster_Inr)
  from pack_trucks_sorted_loop[OF ts]
  have l: "pack_loop cap (sort_key (\<lambda>f. - load_of f) (filter is_valid fs)) [] = Inr ts"
    and c: "\<forall>f\<in>set fs. \<exists>x. load_value f = Inr x" by simp_all
  have "\<forall>f\<in>set (sort_key (\<lambda>f. - load_of f) (filter is_valid fs)). is_valid f" by simp
  from pack_loop_ids[OF l this] have "\<forall>f\<in>set fs. is_valid f \<longrightarrow> f ''farmer_id'' \<noteq> None"
    by simp
  with c show "well_formed fs" by (simp add: well_formed_iff)
next
  assume "well_formed fs"
  from pack_trucks_total[OF this, of cap] show "\<exists>r. pack_cluster fs cap = Inr r"
    by (auto simp: pack_cluster_Inr)
qed

section \<open>Properties of the result\<close>

text \<open>
  C9. Whenever \<open>pack_cluster\<close> returns a result, for any input list and any capacity, every
  carrier of the result holds at least one item id.
\<close>

theorem C9_no_empty_carrier:
  assumes "pack_cluster fs capacity = Inr carriers" and "c \<in> set carriers"
  shows "c \<noteq> []"
proof -
  from carriers_groups[OF assms(1)] obtain gss where "carriers = map (map id_of) gss"
    "\<forall>gs\<in>set gss. gs \<noteq> []" by blast
  with assms(2) show ?thesis by auto
qed

theorem C9_no_empty_carrier_witness:
  "pack_cluster [item ''A'' (PyInt 4000), item ''B'' (PyInt 3000), item ''C'' (PyInt 2000)] 5000
     = Inr [[PyStr ''A''], [PyStr ''B'', PyStr ''C'']]
   \<and> [PyStr ''B'', PyStr ''C''] \<in> set [[PyStr ''A''], [PyStr ''B'', PyStr ''C'']]
   \<and> [PyStr ''B'', PyStr ''C''] \<noteq> []"
proof -
  have e: "pack_cluster [item ''A'' (PyInt 4000), item ''B'' (PyInt 3000), item ''C'' (PyInt 2000)] 5000
     = Inr [[PyStr ''A''], [PyStr ''B'', PyStr ''C'']]"
    by (simp add: pack_cluster_def pack_trucks_def sort_descending_def step_def place_def load_key_def
      subscript_def dict_get_def item_def)
  have m: "[PyStr ''B'', PyStr ''C''] \<in> set [[PyStr ''A''], [PyStr ''B'', PyStr ''C'']]" by simp
  from C9_no_empty_carrier[OF e m] e m show ?thesis by blast
qed










section \<open>A capacity that is not positive\<close>








section \<open>Loads that \<^verbatim>\<open>float\<close> rejects\<close>





section \<open>The order of the carriers in the result\<close>







section \<open>Determinism\<close>

lemma py_sort_unique: "py_sort key xs ys \<Longrightarrow> ys = sort_key key xs"
proof -
  assume a: "py_sort key xs ys"
  then have m: "mset ys = mset xs" and s: "sorted (map key ys)"
    and f: "\<forall>x\<in>set ys. filter (\<lambda>y. key y = key x) ys = filter (\<lambda>y. key y = key x) xs"
    by (simp_all add: py_sort_def list_all_iff)
  have "filter (\<lambda>x. key k = key x) ys = filter (\<lambda>x. key k = key x) xs" if "k \<in> set ys" for k
  proof -
    have "(\<lambda>x. key k = key x) = (\<lambda>y. key y = key k)" by (rule ext) (rule eq_commute)
    with f that show ?thesis by simp
  qed
  with m s show ?thesis by (simp add: properties_for_sort_key)
qed

lemma py_sort_sort_key: "py_sort key xs (sort_key key xs)"
  by (simp add: py_sort_def list_all_iff sort_key_stable)

lemma loop_run_pack_loop:
  "loop_run capacity fs trucks out \<Longrightarrow> out = pack_loop capacity fs trucks"
  by (induction rule: loop_run.induct) (auto simp: step_def dest!: py_sort_unique)

lemma pack_loop_loop_run: "loop_run capacity fs trucks (pack_loop capacity fs trucks)"
proof (induction fs arbitrary: trucks)
  case Nil
  show ?case by (simp add: loop_run.finished)
next
  case (Cons f fs)
  show ?case
  proof (cases "load_key f")
    case (Inl e)
    then show ?thesis by (simp add: step_def loop_run.bad_load)
  next
    case (Inr load)
    note s = py_sort_sort_key[of remaining trucks]
    show ?thesis
    proof (cases "place capacity f load (sort_key remaining trucks)")
      case (Inl e)
      with Inr loop_run.bad_place[OF Inr s Inl] show ?thesis by (simp add: step_def)
    next
      case r: (Inr trucks')
      from loop_run.iteration[OF Inr s r Cons[of trucks']] Inr r show ?thesis
        by (simp add: step_def)
    qed
  qed
qed

lemma call_pack_cluster_eq: "call fs capacity out \<Longrightarrow> out = pack_cluster fs capacity"
proof (induction rule: call.induct)
  case (bad_filter fs e capacity)
  then show ?case by (simp add: pack_cluster_def pack_trucks_def)
next
  case (bad_key fs vs e capacity)
  then show ?case by (simp add: pack_cluster_def pack_trucks_def sort_descending_def)
next
  case (raised fs vs ks decorated capacity e)
  from raised(3) have "decorated = sort_key (\<lambda>p. - fst p) (zip ks vs)" by (rule py_sort_unique)
  with raised(1,2) loop_run_pack_loop[OF raised(4), symmetric] show ?case
    by (simp add: pack_cluster_def pack_trucks_def sort_descending_def)
next
  case (returned fs vs ks decorated capacity trucks)
  from returned(3) have "decorated = sort_key (\<lambda>p. - fst p) (zip ks vs)" by (rule py_sort_unique)
  with returned(1,2) loop_run_pack_loop[OF returned(4), symmetric] show ?case
    by (simp add: pack_cluster_def pack_trucks_def sort_descending_def)
qed

lemma pack_cluster_call: "call fs capacity (pack_cluster fs capacity)"
proof (cases "valid_farmers fs")
  case (Inl e)
  from call.bad_filter[OF Inl] Inl show ?thesis by (simp add: pack_cluster_def pack_trucks_def)
next
  case v: (Inr vs)
  show ?thesis
  proof (cases "load_keys vs")
    case (Inl e)
    from call.bad_key[OF v Inl] v Inl show ?thesis
      by (simp add: pack_cluster_def pack_trucks_def sort_descending_def)
  next
    case k: (Inr ks)
    let ?d = "sort_key (\<lambda>p. - fst p) (zip ks vs)"
    note s = py_sort_sort_key[of "\<lambda>p. - fst p" "zip ks vs"]
    note l = pack_loop_loop_run[of capacity "map snd ?d" "[]"]
    show ?thesis
    proof (cases "pack_loop capacity (map snd ?d) []")
      case (Inl e)
      with l have "loop_run capacity (map snd ?d) [] (Inl e)" by simp
      from call.raised[OF v k s this] v k Inl show ?thesis
        by (simp add: pack_cluster_def pack_trucks_def sort_descending_def)
    next
      case (Inr trucks)
      with l have "loop_run capacity (map snd ?d) [] (Inr trucks)" by simp
      from call.returned[OF v k s this] v k Inr show ?thesis
        by (simp add: pack_cluster_def pack_trucks_def sort_descending_def)
    qed
  qed
qed

text \<open>
  C8. Two calls on the same list (in the same order) and the same capacity end the same way:
  they return the same carriers, in the same order, with the same ids in the same order, or
  raise the same error. Nothing is left to choice, because a stable sort has one outcome.
\<close>

theorem C8_deterministic:
  assumes "call fs capacity out1" and "call fs capacity out2"
  shows "out1 = out2"
proof -
  from assms(1) have "out1 = pack_cluster fs capacity" by (rule call_pack_cluster_eq)
  moreover from assms(2) have "out2 = pack_cluster fs capacity" by (rule call_pack_cluster_eq)
  ultimately show ?thesis by simp
qed

theorem C8_deterministic_witness:
  "call [item ''A'' (PyInt 2500), item ''B'' (PyInt 2500), item ''C'' (PyInt 2500)] 5000
     (Inr [[PyStr ''A'', PyStr ''B''], [PyStr ''C'']])
   \<and> call [item ''A'' (PyInt 2500), item ''B'' (PyInt 2500), item ''C'' (PyInt 2500)] 5000
     (pack_cluster [item ''A'' (PyInt 2500), item ''B'' (PyInt 2500), item ''C'' (PyInt 2500)] 5000)
   \<and> pack_cluster [item ''A'' (PyInt 2500), item ''B'' (PyInt 2500), item ''C'' (PyInt 2500)] 5000
     = Inr [[PyStr ''A'', PyStr ''B''], [PyStr ''C'']]"
proof -
  let ?ex = "[item ''A'' (PyInt 2500), item ''B'' (PyInt 2500), item ''C'' (PyInt 2500)]"
  have e: "pack_cluster ?ex 5000 = Inr [[PyStr ''A'', PyStr ''B''], [PyStr ''C'']]"
    by (simp add: pack_cluster_def pack_trucks_def sort_descending_def step_def place_def
      load_key_def subscript_def dict_get_def item_def)
  have c1: "call ?ex 5000 (pack_cluster ?ex 5000)" by (rule pack_cluster_call)
  then have c2: "call ?ex 5000 (Inr [[PyStr ''A'', PyStr ''B''], [PyStr ''C'']])"
    by (simp only: e)
  from C8_deterministic[OF c1 c2] c1 c2 show ?thesis by simp
qed

section \<open>The call on a store computes \<open>pack_cluster\<close>\<close>

lemma truck_at_iff: "truck_at h t = Inr (fa, r) \<longleftrightarrow> t < length h \<and> h ! t = Truck fa r"
  by (auto simp: truck_at_def split: obj.splits)

lemma id_list_iff: "id_list h a = Inr ids \<longleftrightarrow> a < length h \<and> h ! a = IdList ids"
  by (auto simp: id_list_def split: obj.splits)

lemma dict_at_iff: "dict_at h x = Inr d \<longleftrightarrow> x < length h \<and> h ! x = Dict d"
  by (auto simp: dict_at_def split: obj.splits)

lemma ref_list_iff: "ref_list h a = Inr xs \<longleftrightarrow> a < length h \<and> h ! a = RefList xs"
  by (auto simp: ref_list_def split: obj.splits)

lemma truck_rel_iff:
  "truck_rel h t tr \<longleftrightarrow>
   (\<exists>fa. t < length h \<and> h ! t = Truck fa (remaining tr) \<and>
         fa < length h \<and> h ! fa = IdList (farmers tr))"
  by (auto simp: truck_rel_def truck_at_iff id_list_iff split: sum.splits prod.splits)
     (auto simp: truck_at_def split: if_splits obj.splits)

lemma is_dict_iff: "is_dict h x \<longleftrightarrow> (\<exists>d. x < length h \<and> h ! x = Dict d)"
  by (auto simp: is_dict_def dict_at_iff split: sum.splits)
     (auto simp: dict_at_def split: if_splits obj.splits)

lemma is_dict_the_dict: "is_dict h x \<Longrightarrow> dict_at h x = Inr (the_dict h x)"
  by (auto simp: is_dict_def the_dict_def split: sum.splits)

lemma select_valid_refines:
  "\<forall>x\<in>set xs. is_dict h x \<Longrightarrow>
   (case select_valid h xs of
      Inl e \<Rightarrow> valid_farmers (map (the_dict h) xs) = Inl e
    | Inr vs \<Rightarrow> valid_farmers (map (the_dict h) xs) = Inr (map (the_dict h) vs)
                \<and> set vs \<subseteq> set xs)"
proof (induction xs)
  case Nil
  then show ?case by simp
next
  case (Cons x xs)
  then have d: "dict_at h x = Inr (the_dict h x)" by (simp add: is_dict_the_dict)
  from Cons have ih: "case select_valid h xs of
      Inl e \<Rightarrow> valid_farmers (map (the_dict h) xs) = Inl e
    | Inr vs \<Rightarrow> valid_farmers (map (the_dict h) xs) = Inr (map (the_dict h) vs)
                \<and> set vs \<subseteq> set xs" by simp
  show ?case
  proof (cases "py_float (dict_get (the_dict h x) ''load_kg'' (PyInt 0))")
    case (Inl e)
    with d show ?thesis by simp
  next
    case l: (Inr l)
    show ?thesis
    proof (cases "select_valid h xs")
      case (Inl e)
      with ih d l show ?thesis by simp
    next
      case (Inr vs)
      with ih d l show ?thesis by auto
    qed
  qed
qed

lemma load_keys_at_refines:
  "\<forall>x\<in>set xs. is_dict h x \<Longrightarrow> load_keys_at h xs = load_keys (map (the_dict h) xs)"
  by (induction xs) (auto simp: is_dict_the_dict split: sum.splits)

lemma insort_key_map_commute:
  "insort_key k (m x) (map m ps) = map m (insort_key (\<lambda>a. k (m a)) x ps)"
  by (induction ps) simp_all

lemma sort_key_map_commute: "sort_key k (map m ps) = map m (sort_key (\<lambda>a. k (m a)) ps)"
  by (induction ps) (simp_all add: insort_key_map_commute)

lemma sort_decorated_map:
  "map g (map snd (sort_key (\<lambda>p. k (fst p)) (zip ks xs)))
   = map snd (sort_key (\<lambda>p. k (fst p)) (zip ks (map g xs)))"
proof -
  have "zip ks (map g xs) = map (\<lambda>p. (fst p, g (snd p))) (zip ks xs)"
    by (simp add: zip_map2 case_prod_beta)
  then have "sort_key (\<lambda>p. k (fst p)) (zip ks (map g xs))
     = map (\<lambda>p. (fst p, g (snd p))) (sort_key (\<lambda>p. k (fst p)) (zip ks xs))"
    by (simp add: sort_key_map_commute)
  then show ?thesis by (simp add: comp_def)
qed

lemma truck_rel_shape:
  assumes "truck_rel h t tr"
  shows "t < length h" "h ! t = Truck (ids_addr h t) (remaining tr)"
    "ids_addr h t < length h" "h ! ids_addr h t = IdList (farmers tr)"
proof -
  from assms obtain fa where f: "t < length h" "h ! t = Truck fa (remaining tr)"
    "fa < length h" "h ! fa = IdList (farmers tr)" by (auto simp: truck_rel_iff)
  then have "ids_addr h t = fa" by (simp add: ids_addr_def truck_at_def)
  with f show "t < length h" "h ! t = Truck (ids_addr h t) (remaining tr)"
    "ids_addr h t < length h" "h ! ids_addr h t = IdList (farmers tr)" by simp_all
qed

lemma truck_rel_intro:
  "t < length h \<Longrightarrow> h ! t = Truck fa (remaining tr) \<Longrightarrow> fa < length h \<Longrightarrow>
   h ! fa = IdList (farmers tr) \<Longrightarrow> truck_rel h t tr"
  by (auto simp: truck_rel_iff)

lemma list_all2_shape:
  assumes "list_all2 (truck_rel h) ts trs" and "u \<in> set ts"
  shows "\<exists>tr. truck_rel h u tr"
  using assms by (auto simp: list_all2_conv_all_nth in_set_conv_nth)

lemma truck_rel_grown:
  assumes "truck_rel h t tr" and "length h \<le> length h'"
    and "h' ! t = h ! t" and "h' ! ids_addr h t = h ! ids_addr h t"
  shows "truck_rel h' t tr \<and> ids_addr h' t = ids_addr h t"
proof -
  note s = truck_rel_shape[OF assms(1)]
  from s assms have "truck_rel h' t tr" by (intro truck_rel_intro[of _ _ "ids_addr h t"]) simp_all
  moreover from s assms have "ids_addr h' t = ids_addr h t" by (simp add: ids_addr_def truck_at_def)
  ultimately show ?thesis by simp
qed

lemma list_all2_grown:
  assumes "list_all2 (truck_rel h) ts trs" and "length h \<le> length h'"
    and "\<forall>u\<in>set ts. h' ! u = h ! u \<and> h' ! ids_addr h u = h ! ids_addr h u"
  shows "list_all2 (truck_rel h') ts trs \<and> map (ids_addr h') ts = map (ids_addr h) ts"
  using assms(1,3)
proof (induction ts trs rule: list_all2_induct)
  case Nil
  then show ?case by simp
next
  case (Cons t ts tr trs)
  from Cons.prems have "h' ! t = h ! t" "h' ! ids_addr h t = h ! ids_addr h t" by simp_all
  from truck_rel_grown[OF Cons.hyps(1) assms(2) this] Cons show ?case by simp
qed

lemma store_scan_refines:
  assumes d: "dict_at h x = Inr d"
  shows "trucks_rel h ts trs \<Longrightarrow>
   (case store_scan x load ts h of
      Raised e h' \<Rightarrow> scan d load trs = Inl e
    | Returned placed h' \<Rightarrow>
        \<exists>trs'. scan d load trs = Inr (trs', placed) \<and> trucks_rel h' ts trs' \<and>
          length h' = length h \<and>
          map (ids_addr h') ts = map (ids_addr h) ts \<and>
          (\<forall>b. b \<notin> set ts \<longrightarrow> b \<notin> ids_addr h ` set ts \<longrightarrow> h' ! b = h ! b))"
proof (induction ts arbitrary: trs)
  case Nil
  then show ?case by (simp add: trucks_rel_def)
next
  case (Cons t ts)
  from Cons.prems obtain tr trs0 where trs: "trs = tr # trs0"
    and rel: "truck_rel h t tr" and rest: "list_all2 (truck_rel h) ts trs0"
    and dt: "t \<notin> set ts" "distinct ts"
    and df: "ids_addr h t \<notin> ids_addr h ` set ts" "distinct (map (ids_addr h) ts)"
    by (auto simp: trucks_rel_def list_all2_Cons1)
  let ?fa = "ids_addr h t"
  note s = truck_rel_shape[OF rel]
  from s have ta: "truck_at h t = Inr (?fa, remaining tr)" by (simp add: truck_at_iff)
  from s have il: "id_list h ?fa = Inr (farmers tr)" by (simp add: id_list_iff)
  have tfa: "t \<noteq> ?fa" using s by auto
  have others: "u \<noteq> t \<and> u \<noteq> ?fa \<and> ids_addr h u \<noteq> t \<and> ids_addr h u \<noteq> ?fa" if "u \<in> set ts" for u
  proof -
    from list_all2_shape[OF rest that] obtain tru where "truck_rel h u tru" by blast
    note su = truck_rel_shape[OF this]
    from that dt have "u \<noteq> t" by auto
    moreover from su s have "u \<noteq> ?fa" by auto
    moreover from su s have "ids_addr h u \<noteq> t" by auto
    moreover from that df(1) have "ids_addr h u \<noteq> ?fa" by (metis imageI)
    ultimately show ?thesis by simp
  qed
  have rest_rel: "trucks_rel h ts trs0" using rest dt df by (simp add: trucks_rel_def)
  show ?case
  proof (cases "load \<le> remaining tr")
    case True
    show ?thesis
    proof (cases "subscript d ''farmer_id''")
      case (Inl e)
      with True ta d trs show ?thesis by simp
    next
      case (Inr fid)
      let ?h1 = "h[?fa := IdList (farmers tr @ [fid])]"
      let ?h2 = "?h1[t := Truck ?fa (remaining tr - load)]"
      let ?tr' = "tr\<lparr>farmers := farmers tr @ [fid], remaining := remaining tr - load\<rparr>"
      from s tfa have ta1: "truck_at ?h1 t = Inr (?fa, remaining tr)"
        by (simp add: truck_at_iff)
      have run: "store_scan x load (t # ts) h = Returned True ?h2"
        using True ta d Inr il ta1 by simp
      have fn: "scan d load trs = Inr (?tr' # trs0, True)"
        using True Inr trs by simp
      have len: "length ?h2 = length h" by simp
      have rel2: "truck_rel ?h2 t ?tr'"
        using s tfa by (intro truck_rel_intro[of _ _ ?fa]) simp_all
      have idt: "ids_addr ?h2 t = ?fa" using s by (simp add: ids_addr_def truck_at_def)
      have same: "\<forall>u\<in>set ts. ?h2 ! u = h ! u \<and> ?h2 ! ids_addr h u = h ! ids_addr h u"
      proof
        fix u
        assume "u \<in> set ts"
        from others[OF this] have "t \<noteq> u" "?fa \<noteq> u" "t \<noteq> ids_addr h u" "?fa \<noteq> ids_addr h u"
          by auto
        then show "?h2 ! u = h ! u \<and> ?h2 ! ids_addr h u = h ! ids_addr h u" by simp
      qed
      from list_all2_grown[OF rest eq_refl[OF len[symmetric]] same]
      have l2: "list_all2 (truck_rel ?h2) ts trs0"
        and ids2: "map (ids_addr ?h2) ts = map (ids_addr h) ts" by blast+
      from ids2 have img: "ids_addr ?h2 ` set ts = ids_addr h ` set ts" by (metis image_set)
      have "distinct (map (ids_addr ?h2) (t # ts))"
        using df idt img by (simp only: list.map distinct.simps set_map ids2) simp
      with rel2 l2 dt have "trucks_rel ?h2 (t # ts) (?tr' # trs0)"
        by (simp add: trucks_rel_def del: list.map)
      moreover have "map (ids_addr ?h2) (t # ts) = map (ids_addr h) (t # ts)"
        using ids2 idt by (simp del: map_eq_conv)
      moreover have "\<forall>b. b \<notin> set (t # ts) \<longrightarrow> b \<notin> ids_addr h ` set (t # ts) \<longrightarrow> ?h2 ! b = h ! b"
        by simp
      ultimately show ?thesis using run fn len by simp
    qed
  next
    case False
    then have run: "store_scan x load (t # ts) h = store_scan x load ts h" using ta by simp
    show ?thesis
    proof (cases "store_scan x load ts h")
      case (Raised e h')
      with Cons.IH[OF rest_rel] have "scan d load trs0 = Inl e" by simp
      with False trs run Raised show ?thesis by simp
    next
      case (Returned placed h')
      with Cons.IH[OF rest_rel] obtain trs' where f: "scan d load trs0 = Inr (trs', placed)"
        and r: "trucks_rel h' ts trs'" and len: "length h' = length h"
        and ids: "map (ids_addr h') ts = map (ids_addr h) ts"
        and fr: "\<forall>b. b \<notin> set ts \<longrightarrow> b \<notin> ids_addr h ` set ts \<longrightarrow> h' ! b = h ! b"
        by auto
      have nt: "t \<notin> set ts \<and> t \<notin> ids_addr h ` set ts" using others dt by auto
      have nfa: "?fa \<notin> set ts \<and> ?fa \<notin> ids_addr h ` set ts" using others df by auto
      from fr nt nfa have "h' ! t = h ! t" "h' ! ?fa = h ! ?fa" by simp_all
      from truck_rel_grown[OF rel eq_refl[OF len[symmetric]] this] have rel': "truck_rel h' t tr"
        and idt: "ids_addr h' t = ?fa" by simp_all
      from ids have "ids_addr h' ` set ts = ids_addr h ` set ts"
        by (metis image_set)
      with r rel' idt dt df have "trucks_rel h' (t # ts) (tr # trs')"
        by (simp add: trucks_rel_def)
      moreover have "scan d load trs = Inr (tr # trs', placed)" using False trs f by simp
      moreover have "map (ids_addr h') (t # ts) = map (ids_addr h) (t # ts)" using ids idt by simp
      moreover have "\<forall>b. b \<notin> set (t # ts) \<longrightarrow> b \<notin> ids_addr h ` set (t # ts) \<longrightarrow> h' ! b = h ! b"
        using fr by simp
      ultimately show ?thesis using run Returned len by simp
    qed
  qed
qed

lemma trucks_rel_shape:
  assumes "trucks_rel h ts trs" and "u \<in> set ts"
  shows "u < length h \<and> ids_addr h u < length h \<and>
         (\<exists>r. h ! u = Truck (ids_addr h u) r) \<and> (\<exists>ids. h ! ids_addr h u = IdList ids)"
proof -
  from assms have "\<exists>tr. truck_rel h u tr" by (auto simp: trucks_rel_def intro: list_all2_shape)
  then obtain tr where "truck_rel h u tr" by blast
  from truck_rel_shape[OF this] show ?thesis by simp
qed

lemma store_place_refines:
  assumes d: "dict_at h x = Inr d" and r: "ref_list h a = Inr ts" and rel: "trucks_rel h ts trs"
  shows "case store_place cap a x load ts h of
      Raised e h' \<Rightarrow> place cap d load trs = Inl e
    | Returned u h' \<Rightarrow>
        \<exists>trs' ts'. place cap d load trs = Inr trs' \<and> ref_list h' a = Inr ts' \<and>
          trucks_rel h' ts' trs' \<and> length h \<le> length h' \<and>
          (\<forall>y e. dict_at h y = Inr e \<longrightarrow> dict_at h' y = Inr e)"
proof (cases "store_scan x load ts h")
  case (Raised e h')
  with store_scan_refines[OF d rel, of load] show ?thesis
    by (simp add: store_place_def place_def)
next
  case (Returned placed h')
  with store_scan_refines[OF d rel, of load] obtain trs'
    where sc: "scan d load trs = Inr (trs', placed)" and rel': "trucks_rel h' ts trs'"
      and len: "length h' = length h"
      and fr: "\<forall>b. b \<notin> set ts \<longrightarrow> b \<notin> ids_addr h ` set ts \<longrightarrow> h' ! b = h ! b"
    by auto
  from r have ra: "a < length h" "h ! a = RefList ts" by (simp_all add: ref_list_iff)
  have keep: "h' ! b = h ! b" if "b < length h" "(\<exists>xs. h ! b = RefList xs) \<or> (\<exists>e. h ! b = Dict e)" for b
  proof -
    have "b \<notin> set ts" using trucks_rel_shape[OF rel, of b] that by auto
    moreover have "b \<notin> ids_addr h ` set ts"
    proof
      assume "b \<in> ids_addr h ` set ts"
      then obtain u where u: "u \<in> set ts" "b = ids_addr h u" by blast
      from trucks_rel_shape[OF rel u(1)] u(2) obtain ids where "h ! b = IdList ids" by auto
      with that(2) show False by auto
    qed
    ultimately show ?thesis using fr by simp
  qed
  from keep[of a] ra len have r': "ref_list h' a = Inr ts" by (simp add: ref_list_iff)
  have dicts: "\<forall>y e. dict_at h y = Inr e \<longrightarrow> dict_at h' y = Inr e"
    using keep len by (auto simp: dict_at_iff)
  show ?thesis
  proof (cases placed)
    case True
    with Returned sc rel' r' dicts len show ?thesis by (simp add: store_place_def place_def)
  next
    case False
    from dicts d have d': "dict_at h' x = Inr d" by simp
    show ?thesis
    proof (cases "subscript d ''farmer_id''")
      case (Inl e)
      with Returned False sc d' show ?thesis by (simp add: store_place_def place_def)
    next
      case (Inr fid)
      let ?fa = "length h'"
      let ?t = "Suc (length h')"
      let ?new = "\<lparr>farmers = [fid], remaining = max (cap - load) 0\<rparr>"
      let ?h2 = "(h' @ [IdList [fid]]) @ [Truck ?fa (max (cap - load) 0)]"
      let ?h3 = "?h2[a := RefList (ts @ [?t])]"
      from ra len have a': "a < length h'" by simp
      from r' a' have r2: "ref_list ?h2 a = Inr ts" by (simp add: ref_list_iff nth_append)
      have run: "store_place cap a x load ts h = Returned () ?h3"
        using Returned False d' Inr r2 by (simp add: store_place_def alloc_def)
      have fn: "place cap d load trs = Inr (trs' @ [?new])"
        using sc False Inr by (simp add: place_def)
      have old: "\<forall>u\<in>set ts. ?h3 ! u = h' ! u \<and> ?h3 ! ids_addr h' u = h' ! ids_addr h' u"
      proof
        fix u
        assume u: "u \<in> set ts"
        from trucks_rel_shape[OF rel' u] r' have "u < length h'" "ids_addr h' u < length h'"
          "a \<noteq> u" "a \<noteq> ids_addr h' u" by (auto simp: ref_list_iff)
        then show "?h3 ! u = h' ! u \<and> ?h3 ! ids_addr h' u = h' ! ids_addr h' u"
          by (simp add: nth_append)
      qed
      from rel' have l': "list_all2 (truck_rel h') ts trs'" by (simp add: trucks_rel_def)
      have "length h' \<le> length ?h3" by simp
      from list_all2_grown[OF l' this old]
      have l3: "list_all2 (truck_rel ?h3) ts trs'"
        and ids3: "map (ids_addr ?h3) ts = map (ids_addr h') ts" by blast+
      have new: "truck_rel ?h3 ?t ?new"
        using a' by (intro truck_rel_intro[of _ _ ?fa]) (simp_all add: nth_append)
      have idt: "ids_addr ?h3 ?t = ?fa" using a' by (simp add: ids_addr_def truck_at_def nth_append)
      have small: "\<forall>u\<in>set ts. u < length h' \<and> ids_addr h' u < length h'"
        using trucks_rel_shape[OF rel'] by blast
      then have tn: "?t \<notin> set ts" by auto
      from small have fn2: "?fa \<notin> set (map (ids_addr h') ts)" by auto
      from rel' have dis: "distinct ts" "distinct (map (ids_addr h') ts)"
        by (simp_all add: trucks_rel_def)
      have "distinct (map (ids_addr ?h3) (ts @ [?t]))"
        using dis fn2 idt by (simp only: map_append list.map distinct_append ids3) simp
      moreover have "list_all2 (truck_rel ?h3) (ts @ [?t]) (trs' @ [?new])"
        using l3 new by (simp add: list_all2_appendI)
      ultimately have rel3: "trucks_rel ?h3 (ts @ [?t]) (trs' @ [?new])"
        using dis tn by (simp add: trucks_rel_def del: map_append)
      have r3: "ref_list ?h3 a = Inr (ts @ [?t])" using a' by (simp add: ref_list_iff)
      have dicts3: "\<forall>y e. dict_at h y = Inr e \<longrightarrow> dict_at ?h3 y = Inr e"
      proof (intro allI impI)
        fix y e
        assume "dict_at h y = Inr e"
        with dicts have "dict_at h' y = Inr e" by simp
        then have "y < length h'" "h' ! y = Dict e" by (simp_all add: dict_at_iff)
        moreover with r' have "a \<noteq> y" by (auto simp: ref_list_iff)
        ultimately show "dict_at ?h3 y = Inr e" by (simp add: dict_at_iff nth_append)
      qed
      from len have "length h \<le> length ?h3" by simp
      with run fn rel3 r3 dicts3 show ?thesis by (simp del: append_assoc)
    qed
  qed
qed

lemma remaining_keys_at_refines:
  "list_all2 (truck_rel h) ts trs \<Longrightarrow> remaining_keys_at h ts = Inr (map remaining trs)"
proof (induction ts trs rule: list_all2_induct)
  case Nil
  show ?case by simp
next
  case (Cons t ts tr trs)
  from truck_rel_shape[OF Cons.hyps(1)]
  have "truck_at h t = Inr (ids_addr h t, remaining tr)" by (simp add: truck_at_iff)
  with Cons.IH show ?case by simp
qed

lemma zip_keys_flip:
  "list_all2 P ts trs \<Longrightarrow>
   zip (map key trs) ts = map (\<lambda>p. (key (snd p), fst p)) (zip ts trs)"
  by (induction ts trs rule: list_all2_induct) simp_all

lemma sort_parallel:
  assumes "list_all2 P ts trs"
  shows "list_all2 P (map snd (sort_key fst (zip (map key trs) ts))) (sort_key key trs)"
    and "mset (map snd (sort_key fst (zip (map key trs) ts))) = mset ts"
proof -
  let ?ps = "zip ts trs"
  let ?qs = "sort_key (\<lambda>p. key (snd p)) ?ps"
  from assms have len: "length ts = length trs" by (rule list_all2_lengthD)
  have "sort_key fst (zip (map key trs) ts) = map (\<lambda>p. (key (snd p), fst p)) ?qs"
    by (simp add: zip_keys_flip[OF assms] sort_key_map_commute)
  then have a: "map snd (sort_key fst (zip (map key trs) ts)) = map fst ?qs"
    by (simp add: comp_def)
  from len have "trs = map snd ?ps" by simp
  then have "sort_key key trs = sort_key key (map snd ?ps)" by simp
  also have "\<dots> = map snd ?qs" by (rule sort_key_map_commute)
  finally have b: "sort_key key trs = map snd ?qs" .
  from assms have "\<forall>p\<in>set ?ps. P (fst p) (snd p)" by (auto simp: list_all2_iff)
  then have "\<forall>p\<in>set ?qs. P (fst p) (snd p)" by simp
  then have "list_all2 P (map fst ?qs) (map snd ?qs)"
    by (simp add: list_all2_map1 list_all2_map2 list_all2_same)
  with a b show "list_all2 P (map snd (sort_key fst (zip (map key trs) ts))) (sort_key key trs)"
    by simp
  have "mset (map fst ?qs) = image_mset fst (mset ?qs)" by simp
  also have "\<dots> = image_mset fst (mset ?ps)" by simp
  also have "\<dots> = mset (map fst ?ps)" by simp
  also from len have "map fst ?ps = ts" by simp
  finally show "mset (map snd (sort_key fst (zip (map key trs) ts))) = mset ts"
    using a by simp
qed

lemma store_step_refines:
  assumes d: "dict_at h x = Inr d" and r: "ref_list h a = Inr ts" and rel: "trucks_rel h ts trs"
  shows "case store_step cap a x h of
      Raised e h' \<Rightarrow> step cap d trs = Inl e
    | Returned u h' \<Rightarrow>
        \<exists>trs' ts'. step cap d trs = Inr trs' \<and> ref_list h' a = Inr ts' \<and>
          trucks_rel h' ts' trs' \<and> length h \<le> length h' \<and>
          (\<forall>y e. dict_at h y = Inr e \<longrightarrow> dict_at h' y = Inr e)"
proof (cases "load_key d")
  case (Inl e)
  with d show ?thesis by (simp add: store_step_def step_def)
next
  case (Inr load)
  from rel have l: "list_all2 (truck_rel h) ts trs" and dis: "distinct ts"
    "distinct (map (ids_addr h) ts)" by (simp_all add: trucks_rel_def)
  note k = remaining_keys_at_refines[OF l]
  let ?ts = "map snd (sort_key fst (zip (map remaining trs) ts))"
  let ?trs = "sort_key remaining trs"
  let ?h1 = "h[a := RefList ?ts]"
  note sp = sort_parallel[OF l, of remaining]
  from sp(2) have st: "set ?ts = set ts" by (rule mset_eq_setD)
  from sp(2) dis(1) have d1: "distinct ?ts" by (metis mset_eq_imp_distinct_iff)
  from sp(2) have "mset (map (ids_addr h) ?ts) = mset (map (ids_addr h) ts)"
    by (metis mset_map)
  with dis(2) have d2: "distinct (map (ids_addr h) ?ts)" by (metis mset_eq_imp_distinct_iff)
  from r have ra: "a < length h" "h ! a = RefList ts" by (simp_all add: ref_list_iff)
  have same: "\<forall>u\<in>set ?ts. ?h1 ! u = h ! u \<and> ?h1 ! ids_addr h u = h ! ids_addr h u"
  proof
    fix u
    assume "u \<in> set ?ts"
    with st have "u \<in> set ts" by simp
    from trucks_rel_shape[OF rel this] ra have "a \<noteq> u" "a \<noteq> ids_addr h u" by auto
    then show "?h1 ! u = h ! u \<and> ?h1 ! ids_addr h u = h ! ids_addr h u" by simp
  qed
  have "length h \<le> length ?h1" by simp
  from list_all2_grown[OF sp(1) this same]
  have l1: "list_all2 (truck_rel ?h1) ?ts ?trs"
    and ids1: "map (ids_addr ?h1) ?ts = map (ids_addr h) ?ts" by blast+
  from d2 have "distinct (map (ids_addr ?h1) ?ts)" by (simp only: ids1)
  with l1 d1 have rel1: "trucks_rel ?h1 ?ts ?trs" by (simp only: trucks_rel_def)
  from ra have r1: "ref_list ?h1 a = Inr ?ts" by (simp add: ref_list_iff)
  have dicts1: "\<forall>y e. dict_at h y = Inr e \<longrightarrow> dict_at ?h1 y = Inr e"
    using ra by (auto simp: dict_at_iff nth_list_update)
  with d have d1': "dict_at ?h1 x = Inr d" by simp
  note p = store_place_refines[OF d1' r1 rel1, of cap load]
  have run: "store_step cap a x h = store_place cap a x load ?ts ?h1"
    using d Inr r k by (simp add: store_step_def)
  have fn: "step cap d trs = place cap d load ?trs" using Inr by (simp add: step_def)
  show ?thesis
  proof (cases "store_place cap a x load ?ts ?h1")
    case (Raised e h')
    with p run fn show ?thesis by simp
  next
    case (Returned u h')
    with p obtain trs' ts' where "place cap d load ?trs = Inr trs'" "ref_list h' a = Inr ts'"
      "trucks_rel h' ts' trs'" "length ?h1 \<le> length h'"
      "\<forall>y e. dict_at ?h1 y = Inr e \<longrightarrow> dict_at h' y = Inr e" by auto
    with dicts1 have "step cap d trs = Inr trs' \<and> ref_list h' a = Inr ts' \<and>
          trucks_rel h' ts' trs' \<and> length h \<le> length h' \<and>
          (\<forall>y e. dict_at h y = Inr e \<longrightarrow> dict_at h' y = Inr e)"
      using fn by simp
    with run Returned show ?thesis by auto
  qed
qed

lemma store_loop_refines:
  "\<forall>x\<in>set xs. is_dict h x \<Longrightarrow> ref_list h a = Inr ts \<Longrightarrow> trucks_rel h ts trs \<Longrightarrow>
   (case store_loop cap a xs h of
      Raised e h' \<Rightarrow> pack_loop cap (map (the_dict h) xs) trs = Inl e
    | Returned u h' \<Rightarrow>
        \<exists>trs' ts'. pack_loop cap (map (the_dict h) xs) trs = Inr trs' \<and>
          ref_list h' a = Inr ts' \<and> trucks_rel h' ts' trs')"
proof (induction xs arbitrary: h ts trs)
  case Nil
  then show ?case by auto
next
  case (Cons x xs)
  from Cons.prems(1) have d: "dict_at h x = Inr (the_dict h x)" by (simp add: is_dict_the_dict)
  note s = store_step_refines[OF d Cons.prems(2,3), of cap]
  show ?case
  proof (cases "store_step cap a x h")
    case (Raised e h')
    with s show ?thesis by simp
  next
    case (Returned u h')
    with s obtain trs' ts' where st: "step cap (the_dict h x) trs = Inr trs'"
      and r': "ref_list h' a = Inr ts'" and rel': "trucks_rel h' ts' trs'"
      and dicts: "\<forall>y e. dict_at h y = Inr e \<longrightarrow> dict_at h' y = Inr e" by auto
    have keep: "is_dict h' y \<and> the_dict h' y = the_dict h y" if "y \<in> set xs" for y
    proof -
      from that Cons.prems(1) have "dict_at h y = Inr (the_dict h y)"
        by (simp add: is_dict_the_dict)
      with dicts have "dict_at h' y = Inr (the_dict h y)" by simp
      then show ?thesis by (simp add: is_dict_def the_dict_def)
    qed
    then have "\<forall>y\<in>set xs. is_dict h' y" and m: "map (the_dict h') xs = map (the_dict h) xs"
      by simp_all
    note ih = Cons.IH[OF this(1) r' rel']
    have fn: "pack_loop cap (map (the_dict h) (x # xs)) trs
       = pack_loop cap (map (the_dict h') xs) trs'" using st by (simp add: m del: map_eq_conv)
    show ?thesis
    proof (cases "store_loop cap a xs h'")
      case (Raised e h2)
      with ih fn Returned show ?thesis by simp
    next
      case r2: (Returned u2 h2)
      with ih fn Returned show ?thesis by simp
    qed
  qed
qed

lemma load_keys_at_length: "load_keys_at h xs = Inr ks \<Longrightarrow> length ks = length xs"
  by (induction xs arbitrary: ks) (auto split: sum.splits)

lemma farmers_at_refines:
  "list_all2 (truck_rel h) ts trs \<Longrightarrow> farmers_at h ts = Inr (map (ids_addr h) ts)"
proof (induction ts trs rule: list_all2_induct)
  case Nil
  show ?case by simp
next
  case (Cons t ts tr trs)
  from truck_rel_shape[OF Cons.hyps(1)]
  have "truck_at h t = Inr (ids_addr h t, remaining tr)" by (simp add: truck_at_iff)
  with Cons.IH show ?case by simp
qed

lemma id_lists_refines:
  "list_all2 (truck_rel h) ts trs \<Longrightarrow>
   id_lists (h @ [ob]) (map (ids_addr h) ts) = Inr (map farmers trs)"
proof (induction ts trs rule: list_all2_induct)
  case Nil
  show ?case by simp
next
  case (Cons t ts tr trs)
  from truck_rel_shape[OF Cons.hyps(1)]
  have "id_list (h @ [ob]) (ids_addr h t) = Inr (farmers tr)"
    by (simp add: id_list_iff nth_append)
  with Cons.IH show ?case by simp
qed

text \<open>
  When the argument is the address of a list of dicts, the call on the store ends as
  \<open>pack_cluster\<close> does on those dicts: with the same error, or with a list whose id lists
  are the carriers \<open>pack_cluster\<close> returns.
\<close>

lemma pack_cluster_store_refines:
  assumes r: "ref_list h a = Inr xs" and ds: "\<forall>x\<in>set xs. is_dict h x"
  shows "result_of (pack_cluster_store h a cap) = pack_cluster (map (the_dict h) xs) cap"
proof (cases "select_valid h xs")
  case (Inl e)
  with select_valid_refines[OF ds] r show ?thesis
    by (simp add: pack_cluster_store_def result_of_def pack_cluster_def pack_trucks_def)
next
  case sv: (Inr vs)
  let ?g = "the_dict h"
  from select_valid_refines[OF ds] sv have vf: "valid_farmers (map ?g xs) = Inr (map ?g vs)"
    and sub: "set vs \<subseteq> set xs" by simp_all
  let ?n = "length h"
  let ?h1 = "h @ [RefList vs]"
  have d1: "is_dict ?h1 x \<and> the_dict ?h1 x = ?g x" if "x \<in> set vs" for x
  proof -
    from that sub ds have "dict_at h x = Inr (?g x)" by (auto simp: is_dict_the_dict)
    then have "dict_at ?h1 x = Inr (?g x)" by (simp add: dict_at_iff nth_append)
    then show ?thesis by (simp add: is_dict_def the_dict_def)
  qed
  then have "load_keys_at ?h1 vs = load_keys (map (the_dict ?h1) vs)"
    by (simp add: load_keys_at_refines)
  also from d1 have "map (the_dict ?h1) vs = map ?g vs" by simp
  finally have lk: "load_keys_at ?h1 vs = load_keys (map ?g vs)" .
  show ?thesis
  proof (cases "load_keys_at ?h1 vs")
    case (Inl e)
    with lk have "load_keys (map ?g vs) = Inl e" by simp
    with Inl r sv vf show ?thesis
      by (simp add: pack_cluster_store_def result_of_def alloc_def pack_cluster_def
          pack_trucks_def sort_descending_def)
  next
    case ks: (Inr ks)
    let ?svs = "map snd (sort_key (\<lambda>p. - fst p) (zip ks vs))"
    let ?h2 = "?h1[?n := RefList ?svs]"
    let ?h3 = "?h2 @ [RefList []]"
    let ?tr = "Suc ?n"
    from load_keys_at_length[OF ks] have "length ks = length vs" .
    then have "map snd (zip ks vs) = vs" by simp
    then have "set ?svs = set vs" by (metis set_map set_sort)
    from lk ks have lk': "load_keys (map ?g vs) = Inr ks" by simp
    have sd: "sort_descending (map ?g vs) = Inr (map ?g ?svs)"
      using lk' sort_decorated_map[of ?g uminus ks vs]
      by (simp add: sort_descending_def)
    have d3: "is_dict ?h3 x \<and> the_dict ?h3 x = ?g x" if "x \<in> set ?svs" for x
    proof -
      from that \<open>set ?svs = set vs\<close> sub ds have "dict_at h x = Inr (?g x)"
        by (auto simp: is_dict_the_dict)
      then have "dict_at ?h3 x = Inr (?g x)" by (simp add: dict_at_iff nth_append)
      then show ?thesis by (simp add: is_dict_def the_dict_def)
    qed
    then have dd: "\<forall>x\<in>set ?svs. is_dict ?h3 x" and mm: "map (the_dict ?h3) ?svs = map ?g ?svs"
      by simp_all
    have r3: "ref_list ?h3 ?n = Inr ?svs" by (simp add: ref_list_iff nth_append)
    have t3: "ref_list ?h3 ?tr = Inr []" by (simp add: ref_list_iff nth_append)
    have e3: "trucks_rel ?h3 [] []" by (simp add: trucks_rel_def)
    note l = store_loop_refines[OF dd t3 e3, of cap, unfolded mm]
    have run: "pack_cluster_store h a cap =
       (case store_loop cap ?tr ?svs ?h3 of
          Raised e h4 \<Rightarrow> Raised e h4
        | Returned u h4 \<Rightarrow>
            (case ref_list h4 ?tr of
               Inl e \<Rightarrow> Raised e h4
             | Inr ts \<Rightarrow>
                 (case farmers_at h4 ts of
                    Inl e \<Rightarrow> Raised e h4
                  | Inr fas \<Rightarrow> Returned (length h4) (h4 @ [RefList fas]))))"
      using r sv ks r3
      by (simp add: pack_cluster_store_def alloc_def cong: outcome.case_cong sum.case_cong)
    have fn: "pack_cluster (map ?g xs) cap =
       (case pack_loop cap (map ?g ?svs) [] of
          Inl e \<Rightarrow> Inl e
        | Inr trucks \<Rightarrow> Inr (map farmers trucks))"
      using vf sd by (simp add: pack_cluster_def pack_trucks_def)
    show ?thesis
    proof (cases "store_loop cap ?tr ?svs ?h3")
      case (Raised e h4)
      with l have "pack_loop cap (map ?g ?svs) [] = Inl e" by simp
      with Raised show ?thesis by (simp only: run fn) (simp add: result_of_def)
    next
      case (Returned u h4)
      with l obtain trs ts where pl: "pack_loop cap (map ?g ?svs) [] = Inr trs"
        and r4: "ref_list h4 ?tr = Inr ts" and rel4: "trucks_rel h4 ts trs"
        by auto
      from rel4 have l4: "list_all2 (truck_rel h4) ts trs" by (simp add: trucks_rel_def)
      note fa = farmers_at_refines[OF l4]
      note il = id_lists_refines[OF l4, of "RefList (map (ids_addr h4) ts)"]
      have "ref_list (h4 @ [RefList (map (ids_addr h4) ts)]) (length h4)
         = Inr (map (ids_addr h4) ts)" by (simp add: ref_list_iff)
      with Returned pl r4 fa il show ?thesis
        by (simp only: run fn) (simp add: result_of_def)
    qed
  qed
qed

section \<open>What a call leaves untouched\<close>

lemma trucks_fresh_update:
  assumes "trucks_fresh n trucks h" and "obj_fresh n trucks b ob"
  shows "trucks_fresh n trucks (h[b := ob])"
proof -
  have "obj_fresh n trucks a (h[b := ob] ! a)" if "a < length h" "n \<le> a" for a
  proof (cases "a = b")
    case True
    with that assms(2) show ?thesis by simp
  next
    case False
    with that assms(1) show ?thesis by (simp add: trucks_fresh_def)
  qed
  with assms(1) show ?thesis by (simp add: trucks_fresh_def)
qed

lemma trucks_fresh_alloc:
  assumes "trucks_fresh n trucks h" and "obj_fresh n trucks (length h) ob"
  shows "trucks_fresh n trucks (h @ [ob])"
proof -
  have "obj_fresh n trucks a ((h @ [ob]) ! a)" if "a < Suc (length h)" "n \<le> a" for a
  proof (cases "a = length h")
    case True
    with assms(2) show ?thesis by simp
  next
    case False
    with that assms(1) show ?thesis by (simp add: trucks_fresh_def nth_append)
  qed
  with assms(1) show ?thesis by (simp add: trucks_fresh_def)
qed

lemma trucks_fresh_ref_list:
  assumes "trucks_fresh n trucks h" and "ref_list h trucks = Inr ts"
  shows "\<forall>t\<in>set ts. n \<le> t"
proof -
  from assms(2) have "trucks < length h" "h ! trucks = RefList ts"
    by (auto simp: ref_list_def split: if_splits obj.splits)
  with assms(1) have "obj_fresh n trucks trucks (RefList ts)"
    by (auto simp: trucks_fresh_def)
  then show ?thesis by (simp add: obj_fresh_def list_all_iff)
qed

lemma trucks_fresh_truck_at:
  assumes "trucks_fresh n trucks h" and "truck_at h t = Inr (fa, r)" and "n \<le> t"
  shows "n \<le> fa"
proof -
  from assms(2) have "t < length h" "h ! t = Truck fa r"
    by (auto simp: truck_at_def split: if_splits obj.splits)
  with assms(1,3) have "obj_fresh n trucks t (Truck fa r)"
    by (auto simp: trucks_fresh_def)
  then show ?thesis by (simp add: obj_fresh_def)
qed

lemma unchanged_below_refl: "unchanged_below n h h"
  by (simp add: unchanged_below_def)

lemma unchanged_below_trans:
  "unchanged_below n h h1 \<Longrightarrow> unchanged_below n h1 h2 \<Longrightarrow> unchanged_below n h h2"
  by (simp add: unchanged_below_def)

lemma unchanged_below_update:
  "n \<le> a \<Longrightarrow> unchanged_below n h (h[a := ob])"
  by (simp add: unchanged_below_def)

lemma unchanged_below_alloc:
  "n \<le> length h \<Longrightarrow> unchanged_below n h (h @ [ob])"
  by (simp add: unchanged_below_def)

lemma store_scan_frame:
  "trucks_fresh n trucks h \<Longrightarrow> \<forall>t\<in>set ts. n \<le> t \<Longrightarrow>
   unchanged_below n h (store_of (store_scan f load ts h)) \<and>
   trucks_fresh n trucks (store_of (store_scan f load ts h))"
proof (induction ts)
  case Nil
  then show ?case by (simp add: unchanged_below_refl)
next
  case (Cons t ts)
  show ?case
  proof (cases "truck_at h t")
    case (Inl e)
    with Cons.prems show ?thesis by (simp add: unchanged_below_refl)
  next
    case (Inr p)
    then obtain fa r where tr: "truck_at h t = Inr (fa, r)" by (cases p) simp
    from Cons.prems have nt: "n \<le> t" by simp
    from trucks_fresh_truck_at[OF Cons.prems(1) tr nt] have nfa: "n \<le> fa" .
    show ?thesis
    proof (cases "load \<le> r")
      case False
      with tr Cons show ?thesis by simp
    next
      case True
      show ?thesis
      proof (cases "dict_at h f")
        case (Inl e)
        with tr True Cons.prems show ?thesis by (simp add: unchanged_below_refl)
      next
        case d: (Inr d)
        show ?thesis
        proof (cases "subscript d ''farmer_id''")
          case (Inl e)
          with tr True d Cons.prems show ?thesis by (simp add: unchanged_below_refl)
        next
          case i: (Inr fid)
          show ?thesis
          proof (cases "id_list h fa")
            case (Inl e)
            with tr True d i Cons.prems show ?thesis by (simp add: unchanged_below_refl)
          next
            case l: (Inr ids)
            let ?h1 = "h[fa := IdList (ids @ [fid])]"
            have f1: "trucks_fresh n trucks ?h1"
              using Cons.prems(1) by (rule trucks_fresh_update) (simp add: obj_fresh_def)
            have u1: "unchanged_below n h ?h1" using nfa by (rule unchanged_below_update)
            show ?thesis
            proof (cases "truck_at ?h1 t")
              case (Inl e)
              with tr True d i l f1 u1 show ?thesis by simp
            next
              case (Inr q)
              then obtain fa' r' where tr': "truck_at ?h1 t = Inr (fa', r')" by (cases q) simp
              from trucks_fresh_truck_at[OF f1 tr' nt] have "n \<le> fa'" .
              then have "obj_fresh n trucks t (Truck fa' (r' - load))" by (simp add: obj_fresh_def)
              with f1 have f2: "trucks_fresh n trucks (?h1[t := Truck fa' (r' - load)])"
                by (rule trucks_fresh_update)
              from nt have "unchanged_below n ?h1 (?h1[t := Truck fa' (r' - load)])"
                by (rule unchanged_below_update)
              with u1 have "unchanged_below n h (?h1[t := Truck fa' (r' - load)])"
                by (rule unchanged_below_trans)
              with tr True d i l tr' f2 show ?thesis by simp
            qed
          qed
        qed
      qed
    qed
  qed
qed

lemma store_place_frame:
  assumes f: "trucks_fresh n trucks h" and ts: "\<forall>t\<in>set ts. n \<le> t"
  shows "unchanged_below n h (store_of (store_place capacity trucks f load ts h)) \<and>
         trucks_fresh n trucks (store_of (store_place capacity trucks f load ts h))"
proof (cases "store_scan f load ts h")
  case (Raised e h')
  with store_scan_frame[OF f ts, of f load] show ?thesis by (simp add: store_place_def)
next
  case (Returned placed h')
  with store_scan_frame[OF f ts, of f load]
  have u: "unchanged_below n h h'" and f': "trucks_fresh n trucks h'" by simp_all
  show ?thesis
  proof (cases placed)
    case True
    with Returned u f' show ?thesis by (simp add: store_place_def)
  next
    case False
    show ?thesis
    proof (cases "dict_at h' f")
      case (Inl e)
      with Returned False u f' show ?thesis by (simp add: store_place_def)
    next
      case d: (Inr d)
      show ?thesis
      proof (cases "subscript d ''farmer_id''")
        case (Inl e)
        with Returned False d u f' show ?thesis by (simp add: store_place_def)
      next
        case i: (Inr fid)
        let ?h1 = "h' @ [IdList [fid]]"
        let ?h2 = "?h1 @ [Truck (length h') (max (capacity - load) 0)]"
        from f' have n: "n \<le> length h'" by (simp add: trucks_fresh_def)
        have f1: "trucks_fresh n trucks ?h1"
          using f' by (rule trucks_fresh_alloc) (simp add: obj_fresh_def)
        have f2: "trucks_fresh n trucks ?h2"
          using f1 by (rule trucks_fresh_alloc) (simp add: obj_fresh_def n)
        have "unchanged_below n h' ?h1" using n by (rule unchanged_below_alloc)
        moreover have "unchanged_below n ?h1 ?h2" using n by (simp add: unchanged_below_def)
        ultimately have u2: "unchanged_below n h ?h2" using u by (blast intro: unchanged_below_trans)
        show ?thesis
        proof (cases "ref_list ?h2 trucks")
          case (Inl e)
          with Returned False d i u2 f2 show ?thesis by (simp add: store_place_def alloc_def)
        next
          case (Inr ts')
          from trucks_fresh_ref_list[OF f2 Inr] n
          have "obj_fresh n trucks trucks (RefList (ts' @ [Suc (length h')]))"
            by (simp add: obj_fresh_def list_all_iff)
          with f2 have f3: "trucks_fresh n trucks (?h2[trucks := RefList (ts' @ [Suc (length h')])])"
            by (rule trucks_fresh_update)
          from f have "n \<le> trucks" by (simp add: trucks_fresh_def)
          then have "unchanged_below n ?h2 (?h2[trucks := RefList (ts' @ [Suc (length h')])])"
            by (rule unchanged_below_update)
          with u2 have "unchanged_below n h (?h2[trucks := RefList (ts' @ [Suc (length h')])])"
            by (rule unchanged_below_trans)
          with Returned False d i Inr f3 show ?thesis by (simp add: store_place_def alloc_def)
        qed
      qed
    qed
  qed
qed

lemma remaining_keys_at_length:
  "remaining_keys_at h ts = Inr ks \<Longrightarrow> length ks = length ts"
  by (induction ts arbitrary: ks) (auto split: sum.splits prod.splits)

lemma set_sorted_decorated:
  assumes "length ks = length ts"
  shows "set (map snd (sort_key fst (zip ks ts))) = set ts"
proof -
  have "set (map snd (sort_key fst (zip ks ts))) = snd ` set (zip ks ts)" by simp
  also have "\<dots> = set (map snd (zip ks ts))" by simp
  also from assms have "map snd (zip ks ts) = ts" by simp
  finally show ?thesis .
qed

lemma store_step_frame:
  assumes f: "trucks_fresh n trucks h"
  shows "unchanged_below n h (store_of (store_step capacity trucks x h)) \<and>
         trucks_fresh n trucks (store_of (store_step capacity trucks x h))"
proof (cases "dict_at h x")
  case (Inl e)
  with f show ?thesis by (simp add: store_step_def unchanged_below_refl)
next
  case d: (Inr d)
  show ?thesis
  proof (cases "load_key d")
    case (Inl e)
    with d f show ?thesis by (simp add: store_step_def unchanged_below_refl)
  next
    case l: (Inr load)
    show ?thesis
    proof (cases "ref_list h trucks")
      case (Inl e)
      with d l f show ?thesis by (simp add: store_step_def unchanged_below_refl)
    next
      case t: (Inr ts)
      show ?thesis
      proof (cases "remaining_keys_at h ts")
        case (Inl e)
        with d l t f show ?thesis by (simp add: store_step_def unchanged_below_refl)
      next
        case k: (Inr ks)
        let ?s = "map snd (sort_key fst (zip ks ts))"
        let ?h1 = "h[trucks := RefList ?s]"
        from remaining_keys_at_length[OF k] have "set ?s = set ts" by (rule set_sorted_decorated)
        with trucks_fresh_ref_list[OF f t] have s: "\<forall>t\<in>set ?s. n \<le> t" by simp
        then have "obj_fresh n trucks trucks (RefList ?s)" by (simp add: obj_fresh_def list_all_iff)
        with f have f1: "trucks_fresh n trucks ?h1" by (rule trucks_fresh_update)
        from f have "n \<le> trucks" by (simp add: trucks_fresh_def)
        then have u1: "unchanged_below n h ?h1" by (rule unchanged_below_update)
        from store_place_frame[OF f1 s, of capacity x load] u1
        have "unchanged_below n h (store_of (store_place capacity trucks x load ?s ?h1)) \<and>
          trucks_fresh n trucks (store_of (store_place capacity trucks x load ?s ?h1))"
          by (blast intro: unchanged_below_trans)
        with d l t k show ?thesis by (simp add: store_step_def)
      qed
    qed
  qed
qed

lemma store_loop_frame:
  "trucks_fresh n trucks h \<Longrightarrow>
   unchanged_below n h (store_of (store_loop capacity trucks xs h)) \<and>
   trucks_fresh n trucks (store_of (store_loop capacity trucks xs h))"
proof (induction xs arbitrary: h)
  case Nil
  then show ?case by (simp add: unchanged_below_refl)
next
  case (Cons x xs)
  note s = store_step_frame[OF Cons.prems, of capacity x]
  show ?case
  proof (cases "store_step capacity trucks x h")
    case (Raised e h')
    with s show ?thesis by simp
  next
    case (Returned u h')
    with s have u1: "unchanged_below n h h'" and f1: "trucks_fresh n trucks h'" by simp_all
    from Cons.IH[OF f1] u1 Returned show ?thesis
      by (auto intro: unchanged_below_trans)
  qed
qed

lemma pack_cluster_store_frame:
  "unchanged_below (length h) h (store_of (pack_cluster_store h farmers_arg capacity))"
proof (cases "ref_list h farmers_arg")
  case (Inl e)
  then show ?thesis by (simp add: pack_cluster_store_def unchanged_below_refl)
next
  case fs: (Inr fs)
  show ?thesis
  proof (cases "select_valid h fs")
    case (Inl e)
    with fs show ?thesis by (simp add: pack_cluster_store_def unchanged_below_refl)
  next
    case vs: (Inr vs)
    let ?n = "length h"
    let ?h1 = "h @ [RefList vs]"
    have u1: "unchanged_below ?n h ?h1" by (simp add: unchanged_below_def)
    show ?thesis
    proof (cases "load_keys_at ?h1 vs")
      case (Inl e)
      with fs vs u1 show ?thesis by (simp add: pack_cluster_store_def alloc_def)
    next
      case ks: (Inr ks)
      let ?h2 = "?h1[?n := RefList (map snd (sort_key (\<lambda>p. - fst p) (zip ks vs)))]"
      let ?h3 = "?h2 @ [RefList []]"
      let ?tr = "Suc ?n"
      have u3: "unchanged_below ?n h ?h3" by (simp add: unchanged_below_def)
      have "obj_fresh ?n ?tr a (?h3 ! a)" if "a < length ?h3" "?n \<le> a" for a
      proof -
        from that have "a = ?n \<or> a = ?tr" by auto
        then show ?thesis
        proof
          assume "a = ?n"
          then show ?thesis by (simp add: obj_fresh_def nth_append)
        next
          assume "a = ?tr"
          then show ?thesis by (simp add: obj_fresh_def nth_append)
        qed
      qed
      then have f3: "trucks_fresh ?n ?tr ?h3" unfolding trucks_fresh_def by simp
      show ?thesis
      proof (cases "ref_list ?h3 ?n")
        case (Inl e)
        with fs vs ks u3 show ?thesis by (simp add: pack_cluster_store_def alloc_def)
      next
        case sv: (Inr sorted_vs)
        note l = store_loop_frame[OF f3, of capacity sorted_vs]
        show ?thesis
        proof (cases "store_loop capacity ?tr sorted_vs ?h3")
          case (Raised e h4)
          with l u3 have "unchanged_below ?n h h4" by (auto intro: unchanged_below_trans)
          with fs vs ks sv Raised show ?thesis by (simp add: pack_cluster_store_def alloc_def)
        next
          case (Returned u h4)
          with l u3 have u4: "unchanged_below ?n h h4" and f4: "trucks_fresh ?n ?tr h4"
            by (auto intro: unchanged_below_trans)
          from f4 have "?n \<le> length h4" by (simp add: trucks_fresh_def)
          then have "\<And>ob. unchanged_below ?n h4 (h4 @ [ob])" by (rule unchanged_below_alloc)
          with u4 have u5: "\<And>ob. unchanged_below ?n h (h4 @ [ob])"
            by (blast intro: unchanged_below_trans)
          show ?thesis
          proof (cases "ref_list h4 ?tr")
            case (Inl e)
            with fs vs ks sv Returned u4 show ?thesis
              by (simp add: pack_cluster_store_def alloc_def)
          next
            case ts: (Inr ts)
            show ?thesis
            proof (cases "farmers_at h4 ts")
              case (Inl e)
              with fs vs ks sv Returned ts u4 show ?thesis
                by (simp add: pack_cluster_store_def alloc_def)
            next
              case (Inr fas)
              with fs vs ks sv Returned ts u5[of "RefList fas"] show ?thesis
                by (simp add: pack_cluster_store_def alloc_def)
            qed
          qed
        qed
      qed
    qed
  qed
qed

lemma store_example:
  "result_of (pack_cluster_store
      [Dict (item ''A'' (PyInt 2500)), Dict (item ''B'' (PyInt 2500)),
       Dict (item ''C'' (PyInt 2500)), RefList [0, 1, 2]] 3 5000)
   = Inr [[PyStr ''A'', PyStr ''B''], [PyStr ''C'']]"
  by (simp add: result_of_def pack_cluster_store_def alloc_def ref_list_def dict_at_def
      truck_at_def id_list_def store_step_def store_place_def load_key_def subscript_def
      dict_get_def item_def nth_append)

text \<open>
  C10. Whatever the store, the argument and the capacity, and whether the call returns or
  raises, every object that existed before the call is the same afterwards: the store after
  the call, cut to the length of the store before it, is the store before it. In particular
  the list \<^verbatim>\<open>farmers\<close> has the same elements in the same order and every item dict is as
  it was; the call writes only to the lists and trucks it has created.
\<close>

theorem C10_inputs_unchanged:
  "take (length h) (store_of (pack_cluster_store h farmers_arg capacity)) = h"
  using pack_cluster_store_frame[of h farmers_arg capacity]
  by (simp add: unchanged_below_def)

theorem C10_inputs_unchanged_witness:
  "take (length [Dict (item ''A'' (PyInt 2500)), Dict (item ''B'' (PyInt 2500)),
                 Dict (item ''C'' (PyInt 2500)), RefList [0, 1, 2]])
     (store_of (pack_cluster_store
        [Dict (item ''A'' (PyInt 2500)), Dict (item ''B'' (PyInt 2500)),
         Dict (item ''C'' (PyInt 2500)), RefList [0, 1, 2]] 3 5000))
     = [Dict (item ''A'' (PyInt 2500)), Dict (item ''B'' (PyInt 2500)),
        Dict (item ''C'' (PyInt 2500)), RefList [0, 1, 2]]
   \<and> result_of (pack_cluster_store
      [Dict (item ''A'' (PyInt 2500)), Dict (item ''B'' (PyInt 2500)),
       Dict (item ''C'' (PyInt 2500)), RefList [0, 1, 2]] 3 5000)
     = Inr [[PyStr ''A'', PyStr ''B''], [PyStr ''C'']]"
proof (rule conjI)
  show "take (length [Dict (item ''A'' (PyInt 2500)), Dict (item ''B'' (PyInt 2500)),
                 Dict (item ''C'' (PyInt 2500)), RefList [0, 1, 2]])
     (store_of (pack_cluster_store
        [Dict (item ''A'' (PyInt 2500)), Dict (item ''B'' (PyInt 2500)),
         Dict (item ''C'' (PyInt 2500)), RefList [0, 1, 2]] 3 5000))
     = [Dict (item ''A'' (PyInt 2500)), Dict (item ''B'' (PyInt 2500)),
        Dict (item ''C'' (PyInt 2500)), RefList [0, 1, 2]]"
    by (rule C10_inputs_unchanged)
  show "result_of (pack_cluster_store
      [Dict (item ''A'' (PyInt 2500)), Dict (item ''B'' (PyInt 2500)),
       Dict (item ''C'' (PyInt 2500)), RefList [0, 1, 2]] 3 5000)
     = Inr [[PyStr ''A'', PyStr ''B''], [PyStr ''C'']]"
    by (rule store_example)
qed

section \<open>The capacity bound and binary64 rounding\<close>

































end
